theory Spec2Isabelle
  imports Complex_Main "HOL-Library.Multiset" "HOL-Library.Sublist"
begin

section \<open>JavaScript values\<close>

text \<open>
  Values that come out of \<^verbatim>\<open>JSON.parse\<close> (manifests, persisted state, widget messages).
  A number is a finite double; the model reads it as the rational it denotes.  An object
  is the list of its own properties; a property that is absent reads as \<open>None\<close>
  (JavaScript's \<^verbatim>\<open>undefined\<close>).  A string is kept as the bytes of its UTF-8 encoding, so
  ASCII text stands for itself and a character outside ASCII takes two to four bytes.
\<close>

datatype json =
    JNull
  | JBool bool
  | JNum rat
  | JStr string
  | JArr "json list"
  | JObj "(string \<times> json) list"

text \<open>\<^verbatim>\<open>!!v\<close>: everything is truthy except null, false, 0 and the empty string.\<close>

fun truthy :: "json \<Rightarrow> bool" where
  "truthy JNull = False"
| "truthy (JBool b) = b"
| "truthy (JNum n) = (n \<noteq> 0)"
| "truthy (JStr s) = (s \<noteq> [])"
| "truthy (JArr _) = True"
| "truthy (JObj _) = True"

text \<open>\<^verbatim>\<open>typeof v === 'object'\<close> holds for null, arrays and objects.\<close>

fun typeof_object :: "json \<Rightarrow> bool" where
  "typeof_object JNull = True"
| "typeof_object (JArr _) = True"
| "typeof_object (JObj _) = True"
| "typeof_object _ = False"

text \<open>Property access \<^verbatim>\<open>v.name\<close> on a parsed value; only objects carry the names used here.\<close>

fun get_prop :: "json \<Rightarrow> string \<Rightarrow> json option" where
  "get_prop (JObj kvs) k = map_of kvs k"
| "get_prop _ k = None"

text \<open>\<^verbatim>\<open>a || b\<close> where \<open>a\<close> may be undefined.\<close>

definition or_else :: "json option \<Rightarrow> json \<Rightarrow> json" where
  "or_else a b = (case a of Some v \<Rightarrow> (if truthy v then v else b) | None \<Rightarrow> b)"

section \<open>Files\<close>

text \<open>
  A \<^verbatim>\<open>Gio.File\<close> for a local file holds a canonical absolute path; the model keeps its
  components.  A file of another backend has no local path (\<^verbatim>\<open>get_path()\<close> is null).
\<close>

datatype gfile = LocalFile (comps: "string list") | NonNativeFile

text \<open>Splitting at \<^verbatim>\<open>/\<close>, as \<^verbatim>\<open>String.prototype.split('/')\<close> does.\<close>

fun split_slash :: "string \<Rightarrow> string list" where
  "split_slash [] = [[]]"
| "split_slash (c # cs) =
     (if c = CHR ''/'' then [] # split_slash cs
      else (case split_slash cs of [] \<Rightarrow> [[c]] | w # ws \<Rightarrow> (c # w) # ws))"

text \<open>
  Lexical resolution of path components on top of a stack of already resolved ones
  (kept reversed): empty components and \<^verbatim>\<open>.\<close> are skipped, \<^verbatim>\<open>..\<close> drops the last
  component and stays at the file-system root.
\<close>

fun resolve :: "string list \<Rightarrow> string list \<Rightarrow> string list" where
  "resolve stack [] = rev stack"
| "resolve stack (p # ps) =
     (if p = [] \<or> p = ''.'' then resolve stack ps
      else if p = ''..'' then resolve (tl stack) ps
      else resolve (p # stack) ps)"

text \<open>\<^verbatim>\<open>file.get_child(name)\<close>: the path is built and canonicalised lexically.\<close>

fun get_child :: "gfile \<Rightarrow> string \<Rightarrow> gfile" where
  "get_child (LocalFile cs) name = LocalFile (resolve (rev cs) (split_slash name))"
| "get_child NonNativeFile name = NonNativeFile"

section \<open>Widget registry\<close>

datatype widget_kind = Html | Gtk

record descriptor =
  d_id :: string
  d_kind :: widget_kind
  d_dir :: gfile
  d_manifestFile :: gfile
  d_isUser :: bool
  d_displayName :: json
  d_description :: json
  d_author :: json
  d_version :: json
  d_icon :: json
  d_defaultWidth :: int
  d_defaultHeight :: int
  d_defaultConfig :: json
  d_prefs :: "string option"

text \<open>
  What the scan finds for one child of a root directory: its name, whether it is a
  directory, and what probing and reading \<^verbatim>\<open>widget.json\<close> gives.  \<open>ManifestRead v\<close> is the
  value \<^verbatim>\<open>readJsonFile\<close> returned (null when the file could not be parsed).
\<close>

datatype manifest_probe = ManifestMissing | ManifestNotRegular | ManifestRead json

record dir_entry =
  de_name :: string
  de_isDir :: bool
  de_manifest :: manifest_probe

datatype warning =
    InvalidId gfile
  | DuplicateId string gfile bool gfile bool bool

record scan_state =
  outMap :: "(string \<times> descriptor) list"
  loggedDuplicateIds :: "string list"
  warnings :: "warning list"

text \<open>A \<^verbatim>\<open>Map\<close> keeps its keys in insertion order; setting an existing key keeps its place.\<close>

fun map_set :: "'k \<Rightarrow> 'v \<Rightarrow> ('k \<times> 'v) list \<Rightarrow> ('k \<times> 'v) list" where
  "map_set k v [] = [(k, v)]"
| "map_set k v ((k', v') # kvs) =
     (if k' = k then (k, v) # kvs else (k', v') # map_set k v kvs)"

definition map_delete :: "'k \<Rightarrow> ('k \<times> 'v) list \<Rightarrow> ('k \<times> 'v) list" where
  "map_delete k kvs = filter (\<lambda>kv. fst kv \<noteq> k) kvs"

text \<open>
  The white space and the line terminators of ECMAScript, each as the bytes of its UTF-8
  encoding: TAB, LF, VT, FF, CR, SP, U+00A0, U+1680, U+2000 to U+200A, U+2028, U+2029,
  U+202F, U+205F, U+3000 and U+FEFF.  These are the characters \<^verbatim>\<open>String.prototype.trim\<close>
  strips and the class \<^verbatim>\<open>\s\<close> of a regular expression matches.
\<close>

definition white_space :: "string list" where
  "white_space =
     [[CHR 0x09], [CHR 0x0A], [CHR 0x0B], [CHR 0x0C], [CHR 0x0D], [CHR 0x20],
      [CHR 0xC2, CHR 0xA0],
      [CHR 0xE1, CHR 0x9A, CHR 0x80],
      [CHR 0xE2, CHR 0x80, CHR 0x80], [CHR 0xE2, CHR 0x80, CHR 0x81],
      [CHR 0xE2, CHR 0x80, CHR 0x82], [CHR 0xE2, CHR 0x80, CHR 0x83],
      [CHR 0xE2, CHR 0x80, CHR 0x84], [CHR 0xE2, CHR 0x80, CHR 0x85],
      [CHR 0xE2, CHR 0x80, CHR 0x86], [CHR 0xE2, CHR 0x80, CHR 0x87],
      [CHR 0xE2, CHR 0x80, CHR 0x88], [CHR 0xE2, CHR 0x80, CHR 0x89],
      [CHR 0xE2, CHR 0x80, CHR 0x8A],
      [CHR 0xE2, CHR 0x80, CHR 0xA8], [CHR 0xE2, CHR 0x80, CHR 0xA9],
      [CHR 0xE2, CHR 0x80, CHR 0xAF],
      [CHR 0xE2, CHR 0x81, CHR 0x9F],
      [CHR 0xE3, CHR 0x80, CHR 0x80],
      [CHR 0xEF, CHR 0xBB, CHR 0xBF]]"

text \<open>
  The number of bytes of the character of \<open>table\<close> a string begins with, 0 when it begins
  with none.
\<close>

definition ws_at :: "string list \<Rightarrow> string \<Rightarrow> nat" where
  "ws_at table s = (case find (\<lambda>w. prefix w s) table of None \<Rightarrow> 0 | Some w \<Rightarrow> length w)"

fun strip_ws :: "string list \<Rightarrow> string \<Rightarrow> string" where
  "strip_ws table [] = []"
| "strip_ws table (c # cs) =
     (case ws_at table (c # cs) of 0 \<Rightarrow> c # cs | Suc n \<Rightarrow> strip_ws table (drop n cs))"

text \<open>
  \<^verbatim>\<open>String.prototype.trim\<close>: white space is stripped at the start and, read backwards, at
  the end.
\<close>

definition trim :: "string \<Rightarrow> string" where
  "trim s = rev (strip_ws (map rev white_space) (rev (strip_ws white_space s)))"

text \<open>
  \<^verbatim>\<open>s.replace(/\s+/g, ' ')\<close>: every maximal run of white space becomes one space;
  \<open>inrun\<close> tells that the space for the current run is written already.
\<close>

fun squeeze :: "bool \<Rightarrow> string \<Rightarrow> string" where
  "squeeze inrun [] = []"
| "squeeze inrun (c # cs) =
     (case ws_at white_space (c # cs) of
        0 \<Rightarrow> c # squeeze False cs
      | Suc n \<Rightarrow> (if inrun then [] else '' '') @ squeeze True (drop n cs))"

text \<open>The character class of \<^verbatim>\<open>/^[A-Za-z0-9._-]+$/\<close>.\<close>

definition is_id_char :: "char \<Rightarrow> bool" where
  "is_id_char c =
     (c \<in> set ''ABCDEFGHIJKLMNOPQRSTUVWXYZabcdefghijklmnopqrstuvwxyz0123456789._-'')"

definition idRaw :: "json \<Rightarrow> string" where
  "idRaw manifest = (case get_prop manifest ''id'' of Some (JStr s) \<Rightarrow> trim s | _ \<Rightarrow> [])"

definition idOk :: "json \<Rightarrow> bool" where
  "idOk manifest = (idRaw manifest \<noteq> [] \<and> list_all is_id_char (idRaw manifest))"

text \<open>\<^verbatim>\<open>Number.isFinite(v) ? Math.max(1, Math.floor(v)) : dflt\<close>.\<close>

definition default_size :: "json option \<Rightarrow> int \<Rightarrow> int" where
  "default_size v dflt = (case v of Some (JNum n) \<Rightarrow> max 1 \<lfloor>n\<rfloor> | _ \<Rightarrow> dflt)"

text \<open>\<^verbatim>\<open>_isObject\<close>: a plain object, neither null nor an array.\<close>

fun isObject :: "json option \<Rightarrow> bool" where
  "isObject (Some (JObj _)) = True"
| "isObject _ = False"

definition make_descriptor :: "gfile \<Rightarrow> bool \<Rightarrow> string \<Rightarrow> json \<Rightarrow> descriptor" where
  "make_descriptor rootDir isUser name manifest =
     \<lparr> d_id = idRaw manifest,
       d_kind = (if get_prop manifest ''kind'' = Some (JStr ''gtk'') then Gtk else Html),
       d_dir = get_child rootDir name,
       d_manifestFile = get_child (get_child rootDir name) ''widget.json'',
       d_isUser = isUser,
       d_displayName = or_else (get_prop manifest ''name'') (JStr (idRaw manifest)),
       d_description = or_else (get_prop manifest ''description'') (JStr []),
       d_author = or_else (get_prop manifest ''author'') (JStr []),
       d_version = or_else (get_prop manifest ''version'') (JStr []),
       d_icon = or_else (get_prop manifest ''icon'') (JStr []),
       d_defaultWidth = default_size (get_prop manifest ''defaultWidth'') 260,
       d_defaultHeight = default_size (get_prop manifest ''defaultHeight'') 160,
       d_defaultConfig =
         (if isObject (get_prop manifest ''defaultConfig'')
          then (case get_prop manifest ''defaultConfig'' of Some c \<Rightarrow> c | None \<Rightarrow> JObj [])
          else JObj []),
       d_prefs = (case get_prop manifest ''prefs'' of Some (JStr s) \<Rightarrow> Some s | _ \<Rightarrow> None) \<rparr>"

text \<open>\<^verbatim>\<open>_logDuplicateIds\<close>: one warning for an id, however many duplicates follow.\<close>

definition logDuplicateIds ::
  "string \<Rightarrow> descriptor \<Rightarrow> bool \<Rightarrow> gfile \<Rightarrow> bool \<Rightarrow> scan_state \<Rightarrow> scan_state" where
  "logDuplicateIds i existing replace widgetDir isUser st =
     (if i \<in> set (loggedDuplicateIds st) then st
      else st\<lparr> warnings := warnings st @
                  [DuplicateId i (d_dir existing) (d_isUser existing) widgetDir isUser replace],
                loggedDuplicateIds := loggedDuplicateIds st @ [i] \<rparr>)"

text \<open>The body of the loop of \<^verbatim>\<open>_scanRootAsync\<close> for one enumerated child.\<close>

definition scanEntry :: "gfile \<Rightarrow> bool \<Rightarrow> dir_entry \<Rightarrow> scan_state \<Rightarrow> scan_state" where
  "scanEntry rootDir isUser e st =
     (if \<not> de_isDir e then st
      else case de_manifest e of
        ManifestMissing \<Rightarrow> st
      | ManifestNotRegular \<Rightarrow> st
      | ManifestRead manifest \<Rightarrow>
          if \<not> truthy manifest then st
          else if \<not> idOk manifest then
            st\<lparr> warnings := warnings st @
                  [InvalidId (get_child (get_child rootDir (de_name e)) ''widget.json'')] \<rparr>
          else
            let desc = make_descriptor rootDir isUser (de_name e) manifest;
                i = d_id desc
            in case map_of (outMap st) i of
                 Some existing \<Rightarrow>
                   let replace = (isUser \<and> \<not> d_isUser existing);
                       st' = logDuplicateIds i existing replace (d_dir desc) isUser st
                   in if replace then st'\<lparr> outMap := map_set i desc (outMap st') \<rparr> else st'
               | None \<Rightarrow> st\<lparr> outMap := map_set i desc (outMap st) \<rparr>)"

text \<open>
  One root: \<open>None\<close> when the root is missing, is not a directory or cannot be enumerated;
  otherwise the children the enumerator delivered, batch after batch.
\<close>

record scan_root =
  sr_root :: gfile
  sr_isUser :: bool
  sr_children :: "dir_entry list option"

definition scanRootAsync :: "scan_root \<Rightarrow> scan_state \<Rightarrow> scan_state" where
  "scanRootAsync r st =
     (case sr_children r of
        None \<Rightarrow> st
      | Some es \<Rightarrow> fold (scanEntry (sr_root r) (sr_isUser r)) es st)"

definition scanRoots :: "scan_root list \<Rightarrow> scan_state" where
  "scanRoots rs = fold scanRootAsync rs \<lparr> outMap = [], loggedDuplicateIds = [], warnings = [] \<rparr>"

text \<open>\<^verbatim>\<open>_loadOnceAsync\<close>: the user root (when there is one), then the system roots in order.\<close>

definition loadOnceAsync ::
  "(gfile \<times> dir_entry list option) option \<Rightarrow> (gfile \<times> dir_entry list option) list \<Rightarrow> scan_state" where
  "loadOnceAsync userRoot systemRoots =
     scanRoots
       ((case userRoot of None \<Rightarrow> []
         | Some (f, es) \<Rightarrow> [\<lparr> sr_root = f, sr_isUser = True, sr_children = es \<rparr>]) @
        map (\<lambda>(f, es). \<lparr> sr_root = f, sr_isUser = False, sr_children = es \<rparr>) systemRoots)"

text \<open>\<^verbatim>\<open>listWidgets\<close> and \<^verbatim>\<open>getDescriptor\<close> once the load is done.\<close>

definition listWidgets :: "scan_state \<Rightarrow> descriptor list" where
  "listWidgets st = map snd (outMap st)"

definition getDescriptor :: "scan_state \<Rightarrow> string \<Rightarrow> descriptor option" where
  "getDescriptor st i = (if i = [] then None else map_of (outMap st) i)"


subsection \<open>What a scan has seen\<close>

text \<open>
  An enumerated child takes part in the registry when it is a directory whose manifest was
  read, is truthy and carries a valid id.  \<open>scanned\<close> lists, in discovery order, the id and
  the scope of every such child.
\<close>

definition accepted :: "dir_entry \<Rightarrow> bool" where
  "accepted e =
     (de_isDir e \<and>
      (case de_manifest e of ManifestRead manifest \<Rightarrow> truthy manifest \<and> idOk manifest
       | _ \<Rightarrow> False))"

definition entry_id :: "dir_entry \<Rightarrow> string" where
  "entry_id e = (case de_manifest e of ManifestRead manifest \<Rightarrow> idRaw manifest | _ \<Rightarrow> [])"

definition seen_entry :: "bool \<Rightarrow> dir_entry \<Rightarrow> (string \<times> bool) list" where
  "seen_entry isUser e = (if accepted e then [(entry_id e, isUser)] else [])"

definition seen_root :: "scan_root \<Rightarrow> (string \<times> bool) list" where
  "seen_root r =
     (case sr_children r of None \<Rightarrow> []
      | Some es \<Rightarrow> concat (map (seen_entry (sr_isUser r)) es))"

definition scanned :: "scan_root list \<Rightarrow> (string \<times> bool) list" where
  "scanned rs = concat (map seen_root rs)"

text \<open>
  The descriptors the scan builds, in discovery order: one for every child that takes part.
\<close>

definition manifest_of :: "dir_entry \<Rightarrow> json" where
  "manifest_of e = (case de_manifest e of ManifestRead manifest \<Rightarrow> manifest | _ \<Rightarrow> JNull)"

definition found_entry :: "gfile \<Rightarrow> bool \<Rightarrow> dir_entry \<Rightarrow> descriptor list" where
  "found_entry rootDir isUser e =
     (if accepted e then [make_descriptor rootDir isUser (de_name e) (manifest_of e)] else [])"

definition found_root :: "scan_root \<Rightarrow> descriptor list" where
  "found_root r =
     (case sr_children r of None \<Rightarrow> []
      | Some es \<Rightarrow> concat (map (found_entry (sr_root r) (sr_isUser r)) es))"

definition found :: "scan_root list \<Rightarrow> descriptor list" where
  "found rs = concat (map found_root rs)"

text \<open>
  The descriptor that is to stand for an id: the one of the first user-scoped bundle with
  that id, and without a user-scoped one the one of the first bundle with that id.
\<close>

definition kept :: "descriptor list \<Rightarrow> string \<Rightarrow> descriptor option" where
  "kept ds i =
     (case find (\<lambda>d. d_id d = i \<and> d_isUser d) ds of
        Some d \<Rightarrow> Some d
      | None \<Rightarrow> find (\<lambda>d. d_id d = i) ds)"

fun is_duplicate_warning :: "string \<Rightarrow> warning \<Rightarrow> bool" where
  "is_duplicate_warning i (DuplicateId j _ _ _ _ _) = (i = j)"
| "is_duplicate_warning i (InvalidId _) = False"

definition scan_inv :: "scan_state \<Rightarrow> (string \<times> bool) list \<Rightarrow> bool" where
  "scan_inv st seen =
     (distinct (map fst (outMap st)) \<and>
      fst ` set (outMap st) = fst ` set seen \<and>
      (\<forall>k d. map_of (outMap st) k = Some d \<longrightarrow>
         d_id d = k \<and> (d_isUser d \<longleftrightarrow> (k, True) \<in> set seen)) \<and>
      distinct (loggedDuplicateIds st) \<and>
      set (loggedDuplicateIds st) = {i. 2 \<le> count_list (map fst seen) i} \<and>
      (\<forall>i. length (filter (is_duplicate_warning i) (warnings st)) =
         (if i \<in> set (loggedDuplicateIds st) then 1 else 0)))"


text \<open>
  An example scan in which the system bundle is discovered before the user bundle of the same
  id, and a third bundle with that id follows.  The manifest of the user bundle writes the id
  with a no-break space before it and a space after it.
\<close>

definition example_manifest :: "string \<Rightarrow> string \<Rightarrow> json" where
  "example_manifest i v = JObj [(''id'', JStr i), (''version'', JStr v)]"

definition example_bundle :: "string \<Rightarrow> string \<Rightarrow> string \<Rightarrow> dir_entry" where
  "example_bundle name i v =
     \<lparr> de_name = name, de_isDir = True, de_manifest = ManifestRead (example_manifest i v) \<rparr>"

definition example_roots :: "scan_root list" where
  "example_roots =
     [\<lparr> sr_root = LocalFile [''usr'', ''share'', ''ding'', ''widgets''], sr_isUser = False,
        sr_children = Some [example_bundle ''clock'' ''clock'' ''1''] \<rparr>,
      \<lparr> sr_root = LocalFile [''home'', ''u'', ''ding'', ''widgets''], sr_isUser = True,
        sr_children = Some [example_bundle ''notes'' ''notes'' ''1'',
                            example_bundle ''my-clock'' (CHR 0xC2 # CHR 0xA0 # ''clock '') ''2''] \<rparr>,
      \<lparr> sr_root = LocalFile [''opt'', ''ding'', ''widgets''], sr_isUser = False,
        sr_children = Some [example_bundle ''clock'' ''clock'' ''3''] \<rparr>]"

section \<open>HTML widget host\<close>

text \<open>
  A call either returns or is left by a \<^verbatim>\<open>TypeError\<close> (a method called on
  \<^verbatim>\<open>null\<close>); the object keeps what was assigned before the throw.
\<close>

datatype ('v, 's) result = Returned 'v 's | Threw 's

fun state_of :: "('v, 's) result \<Rightarrow> 's" where
  "state_of (Returned v s) = s"
| "state_of (Threw s) = s"

fun returned :: "('v, 's) result \<Rightarrow> bool" where
  "returned (Returned v s) = True"
| "returned (Threw s) = False"

datatype host_mode = WidgetMode | PrefsMode

text \<open>
  The scripts a host hands to \<^verbatim>\<open>evaluate_javascript\<close>: the call of
  \<^verbatim>\<open>window.ding._setHostState\<close> built by \<^verbatim>\<open>_sendHostStatePatch\<close> and the call of
  \<^verbatim>\<open>window.postMessage\<close> built by \<^verbatim>\<open>_postMessage\<close>, each with the value that is
  stringified into it.
\<close>

datatype script = SetHostStateScript json | PostMessageScript json

datatype page = NoPage | LoadedUri string | FallbackPage string

text \<open>The web view made by \<^verbatim>\<open>newViewForInstance\<close>, with the fields bound to it.\<close>

record webview =
  wv_dingWidgetRoot :: "gfile option"
  wv_dingWidgetId :: string
  wv_dingInstanceId :: string
  wv_page :: page

text \<open>\<^verbatim>\<open>webView.get_uri()\<close>.\<close>

fun get_uri :: "webview \<Rightarrow> string option" where
  "get_uri wv = (case wv_page wv of NoPage \<Rightarrow> None | LoadedUri u \<Rightarrow> Some u
                 | FallbackPage _ \<Rightarrow> Some ''about:blank'')"

text \<open>
  The fields of \<^verbatim>\<open>HtmlWidgetHost\<close>.  \<open>frame\<close> tells whether \<^verbatim>\<open>_frame\<close> still holds the
  clip widget.  \<open>evaluated\<close> is the observation the claims are about: every script this host
  has handed to a surface, oldest first.
\<close>

record host =
  h_instanceId :: string
  h_widgetId :: string
  h_mode :: host_mode
  h_prefsUri :: "string option"
  pendingHostStatePatches :: "json list"
  pendingPostMessages :: "json list"
  webView :: "webview option"
  frame :: bool
  destroyed :: bool
  evaluated :: "script list"

text \<open>The constructor, up to the point where \<^verbatim>\<open>_start\<close> suspends.\<close>

definition new_host :: "string \<Rightarrow> string \<Rightarrow> host_mode \<Rightarrow> string option \<Rightarrow> host" where
  "new_host instanceId widgetId mode prefsUri =
     \<lparr> h_instanceId = instanceId, h_widgetId = widgetId, h_mode = mode,
       h_prefsUri = (if prefsUri = Some [] then None else prefsUri),
       pendingHostStatePatches = [], pendingPostMessages = [],
       webView = None, frame = True, destroyed = False, evaluated = [] \<rparr>"

definition isAlive :: "host \<Rightarrow> bool" where
  "isAlive h = (\<not> destroyed h)"

text \<open>
  \<^verbatim>\<open>destroy\<close>: the flag is set first; \<^verbatim>\<open>this._frame.set_child(null)\<close> throws when
  \<^verbatim>\<open>_frame\<close> is null and \<^verbatim>\<open>this._webView.unparent()\<close> throws when \<^verbatim>\<open>_webView\<close> is null.
\<close>

definition destroy :: "host \<Rightarrow> (unit, host) result" where
  "destroy h =
     (let h1 = h\<lparr> destroyed := True \<rparr>
      in if \<not> frame h1 then Threw h1
         else case webView h1 of
                None \<Rightarrow> Threw h1
              | Some wv \<Rightarrow>
                  Returned () (h1\<lparr> webView := None, frame := False,
                                   pendingHostStatePatches := [] \<rparr>))"

text \<open>\<^verbatim>\<open>_evaluateScript\<close>; an exception of the engine is caught and logged there.\<close>

definition evaluateScript :: "script \<Rightarrow> host \<Rightarrow> host" where
  "evaluateScript s h =
     (if destroyed h \<or> webView h = None then h else h\<lparr> evaluated := evaluated h @ [s] \<rparr>)"

definition sendHostStatePatch :: "json \<Rightarrow> host \<Rightarrow> host" where
  "sendHostStatePatch patch h = evaluateScript (SetHostStateScript patch) h"

definition postMessage_script :: "json \<Rightarrow> host \<Rightarrow> host" where
  "postMessage_script msg h = evaluateScript (PostMessageScript msg) h"

text \<open>The guard \<^verbatim>\<open>!v || typeof v !== 'object'\<close> of both entry points, negated.\<close>

definition is_object_arg :: "json \<Rightarrow> bool" where
  "is_object_arg v = (truthy v \<and> typeof_object v)"

definition setHostStatePatch :: "json \<Rightarrow> host \<Rightarrow> host" where
  "setHostStatePatch patch h =
     (if \<not> is_object_arg patch then h
      else if destroyed h \<or> webView h = None
           then h\<lparr> pendingHostStatePatches := pendingHostStatePatches h @ [patch] \<rparr>
      else sendHostStatePatch patch h)"

definition postMessage :: "json \<Rightarrow> host \<Rightarrow> host" where
  "postMessage msg h =
     (if \<not> is_object_arg msg then h
      else if destroyed h \<or> webView h = None
           then h\<lparr> pendingPostMessages := pendingPostMessages h @ [msg] \<rparr>
      else postMessage_script msg h)"

definition flushPendingHostStatePatches :: "host \<Rightarrow> host" where
  "flushPendingHostStatePatches h =
     (fold sendHostStatePatch (pendingHostStatePatches h) h)\<lparr> pendingHostStatePatches := [] \<rparr>"

definition flushPendingMessages :: "host \<Rightarrow> host" where
  "flushPendingMessages h =
     (fold postMessage_script (pendingPostMessages h) h)\<lparr> pendingPostMessages := [] \<rparr>"

text \<open>
  \<^verbatim>\<open>_makeWebView\<close> once \<^verbatim>\<open>newViewForInstance\<close> has delivered the view: \<^verbatim>\<open>_webView\<close> is
  assigned, and the method ends with \<^verbatim>\<open>this._frame.set_child(...)\<close>, which throws when
  \<^verbatim>\<open>_frame\<close> is null.  From this step on the guards of \<^verbatim>\<open>setHostStatePatch\<close> and
  \<^verbatim>\<open>postMessage\<close> find a web view.
\<close>

definition makeWebView :: "webview \<Rightarrow> host \<Rightarrow> (unit, host) result" where
  "makeWebView wv h =
     (let h1 = h\<lparr> webView := Some wv \<rparr>
      in if frame h1 then Returned () h1 else Threw h1)"

text \<open>
  \<^verbatim>\<open>_start\<close> after \<^verbatim>\<open>Promise.all\<close>: \<open>url\<close> is what \<^verbatim>\<open>_makeUrl\<close> resolved to, null when
  there is no entry file or preferences page.  This is a step of its own: \<^verbatim>\<open>_makeUrl\<close>
  waits for the registry, so other calls on the host can run between the assignment of
  \<^verbatim>\<open>_webView\<close> and the flush.  (When \<^verbatim>\<open>_makeWebView\<close> or \<^verbatim>\<open>_makeUrl\<close> throws,
  \<^verbatim>\<open>Promise.all\<close> rejects, \<^verbatim>\<open>_start\<close> stops at its destructuring and this step never
  runs.)
\<close>

definition start_continue :: "string option \<Rightarrow> host \<Rightarrow> host" where
  "start_continue url h =
     (case webView h of
        None \<Rightarrow> h
      | Some wv \<Rightarrow>
          let loaded = (case url of
                          Some u \<Rightarrow> (if u \<noteq> [] then LoadedUri u
                                     else FallbackPage ''Missing entry/prefs URL'')
                        | None \<Rightarrow> FallbackPage ''Missing entry/prefs URL'');
              h1 = h\<lparr> webView := Some (wv\<lparr> wv_page := loaded \<rparr>) \<rparr>
          in flushPendingMessages (flushPendingHostStatePatches h1))"

text \<open>Calls from the outside, at any time in the life of the host.\<close>

datatype host_call = CallSetHostStatePatch json | CallPostMessage json

fun call :: "host_call \<Rightarrow> host \<Rightarrow> host" where
  "call (CallSetHostStatePatch patch) h = setHostStatePatch patch h"
| "call (CallPostMessage msg) h = postMessage msg h"

text \<open>The script each call stands for, when its argument passes the guard.\<close>

fun script_of :: "host_call \<Rightarrow> script list" where
  "script_of (CallSetHostStatePatch patch) =
     (if is_object_arg patch then [SetHostStateScript patch] else [])"
| "script_of (CallPostMessage msg) =
     (if is_object_arg msg then [PostMessageScript msg] else [])"

fun patch_of :: "host_call \<Rightarrow> json list" where
  "patch_of (CallSetHostStatePatch patch) = (if is_object_arg patch then [patch] else [])"
| "patch_of (CallPostMessage msg) = []"

fun message_of :: "host_call \<Rightarrow> json list" where
  "message_of (CallPostMessage msg) = (if is_object_arg msg then [msg] else [])"
| "message_of (CallSetHostStatePatch patch) = []"

text \<open>
  What can happen to a host, one step at a time: a call from the outside, \<^verbatim>\<open>destroy\<close>,
  and the two steps of \<^verbatim>\<open>_start\<close>, which may come late.
\<close>

datatype host_op =
    OpCall host_call
  | OpDestroy
  | OpMakeWebView webview
  | OpStartContinue "string option"

fun host_step :: "host_op \<Rightarrow> host \<Rightarrow> host" where
  "host_step (OpCall c) h = call c h"
| "host_step OpDestroy h = state_of (destroy h)"
| "host_step (OpMakeWebView wv) h = state_of (makeWebView wv h)"
| "host_step (OpStartContinue url) h = start_continue url h"

definition example_view :: webview where
  "example_view =
     \<lparr> wv_dingWidgetRoot = Some (LocalFile [''usr'', ''share'', ''ding'', ''widgets'', ''clock'']),
       wv_dingWidgetId = ''clock'', wv_dingInstanceId = ''abc'', wv_page = NoPage \<rparr>"

definition example_url :: string where
  "example_url = ''ding-widget://abc/index.html?dingMode=widget&dingInstanceId=abc''"

definition example_patch :: json where
  "example_patch = JObj [(''selected'', JBool True)]"

definition example_message :: json where
  "example_message = JObj [(''type'', JStr ''configChanged'')]"

text \<open>A host after both steps of \<^verbatim>\<open>_start\<close>, with no call in between.\<close>

definition example_ready_host :: host where
  "example_ready_host =
     start_continue (Some example_url)
       (state_of (makeWebView example_view (new_host ''abc'' ''clock'' WidgetMode None)))"

section \<open>Persisted state, instances, manager and web context: the data\<close>

text \<open>
  One entry of the persisted document.  A field that is absent or null is \<open>None\<close>; the
  code reads the fields with \<^verbatim>\<open>??\<close>, which treats the two alike.
\<close>

record state_entry =
  s_instanceId :: "string option"
  s_widgetId :: "string option"
  s_monitorIndex :: "int option"
  s_kind :: "string option"
  s_normX :: "rat option"
  s_normY :: "rat option"
  s_width :: "rat option"
  s_height :: "rat option"
  s_config :: "json option"
  s_prefsUri :: "string option"
  s_hasPreferences :: "bool option"

text \<open>The document; \<open>s_instances\<close> is \<open>None\<close> when \<^verbatim>\<open>instances\<close> is not an array.\<close>

record state_doc =
  s_version :: "int option"
  s_instances :: "state_entry list option"

text \<open>
  A widget instance.  \<open>actor\<close> is \<open>None\<close> while the instance has no actor, and otherwise
  tells whether the actor has a parent container; the rest of the GTK scene is not modelled.
\<close>

record widget_instance =
  instanceId :: string
  widgetId :: string
  monitorIndex :: int
  kind :: string
  normX :: rat
  normY :: rat
  width :: rat
  height :: rat
  config :: json
  prefsUri :: "string option"
  hasPreferences :: "bool option"
  actor :: "bool option"
  host :: "host option"
  isAddButton :: bool

text \<open>
  The fields of \<^verbatim>\<open>WebWidgetContext\<close>.  Windows are numbered in the order of their
  creation; \<open>openWindows\<close> lists the preferences windows that were created and neither
  destroyed nor closed, and \<open>presented\<close> logs the calls of \<^verbatim>\<open>present()\<close>.
\<close>

record web_context =
  prefsWindow :: "nat option"
  prefsHost :: "host option"
  prefsInstanceId :: "string option"
  instanceRoots :: "(string \<times> gfile) list"
  cspString :: string
  openWindows :: "nat list"
  windowsCreated :: nat
  presented :: "nat list"

text \<open>
  The fields of \<^verbatim>\<open>WidgetManager\<close>.  \<open>surfaces\<close> holds the monitor indices that have a
  surface; \<open>showDesktopWidgets\<close> and \<open>widgetState\<close> are the two preferences the manager
  reads and writes.
\<close>

record manager =
  instances :: "(string \<times> widget_instance) list"
  selectedInstanceId :: "string option"
  suppressStateEvents :: bool
  surfaces :: "int list"
  showDesktopWidgets :: bool
  widgetState :: "state_doc option"
  webWidgetContext :: "web_context option"

definition getInstance :: "manager \<Rightarrow> string \<Rightarrow> widget_instance option" where
  "getInstance m i = map_of (instances m) i"

section \<open>The ding-widget scheme handler\<close>

definition join_slash :: "string list \<Rightarrow> string" where
  "join_slash cs = (case cs of [] \<Rightarrow> [] | c # cs' \<Rightarrow> c @ concat (map (\<lambda>x. CHR ''/'' # x) cs'))"

text \<open>\<^verbatim>\<open>file.get_path()\<close>.\<close>

fun get_path :: "gfile \<Rightarrow> string option" where
  "get_path (LocalFile cs) = Some (CHR ''/'' # join_slash cs)"
| "get_path NonNativeFile = None"

definition is_sep :: "char \<Rightarrow> bool" where
  "is_sep c = (c = CHR ''/'')"

text \<open>
  \<^verbatim>\<open>GLib.build_filenamev([a, b])\<close> for two non-empty elements: the leading separators of
  the first element and the trailing ones of the last are kept, the other separators at the
  joint are replaced by a single one, and an element made of separators only adds no joint.
\<close>

definition strip_seps :: "string \<Rightarrow> string" where
  "strip_seps s = rev (dropWhile is_sep (rev (dropWhile is_sep s)))"

definition trailing_seps :: "string \<Rightarrow> string" where
  "trailing_seps s = rev (takeWhile is_sep (rev s))"

definition build_filenamev :: "string \<Rightarrow> string \<Rightarrow> string" where
  "build_filenamev a b =
     takeWhile is_sep a @ strip_seps a @
     (if strip_seps b = [] then b
      else (if strip_seps a = [] then [] else ''/'') @ strip_seps b @ trailing_seps b)"

text \<open>
  \<^verbatim>\<open>GLib.canonicalize_filename(p, null)\<close> for an absolute path: \<^verbatim>\<open>.\<close> and \<^verbatim>\<open>..\<close> are
  resolved lexically, runs of separators collapse, a trailing separator goes; exactly two
  leading separators are kept as they are.
\<close>

definition canonicalize_filename :: "string \<Rightarrow> string" where
  "canonicalize_filename p =
     (if length (takeWhile is_sep p) = 2 then ''//'' else ''/'') @
     join_slash (resolve [] (split_slash p))"

text \<open>The two \<^verbatim>\<open>replace\<close> calls that normalise the path of the URI.\<close>

definition strip_leading_slashes :: "string \<Rightarrow> string" where
  "strip_leading_slashes p = dropWhile is_sep p"

fun strip_leading_dot_slash :: "string \<Rightarrow> string" where
  "strip_leading_dot_slash (a # b # cs) =
     (if a = CHR ''.'' \<and> b = CHR ''/'' then strip_leading_dot_slash cs else a # b # cs)"
| "strip_leading_dot_slash cs = cs"

definition effectiveRelPath :: "string \<Rightarrow> string" where
  "effectiveRelPath p = strip_leading_dot_slash (strip_leading_slashes p)"

text \<open>
  The file system as the handler sees it: what \<^verbatim>\<open>query_info\<close> with
  \<^verbatim>\<open>NOFOLLOW_SYMLINKS\<close> and \<^verbatim>\<open>load_bytes_async\<close> give for a local path; \<open>None\<close> where the
  call throws.
\<close>

record fnode =
  fn_isSymlink :: bool
  fn_bytes :: "string option"

type_synonym filesystem = "string list \<Rightarrow> fnode option"

fun query_info :: "filesystem \<Rightarrow> gfile \<Rightarrow> fnode option" where
  "query_info fs (LocalFile cs) = fs cs"
| "query_info fs NonNativeFile = None"

fun load_bytes :: "filesystem \<Rightarrow> gfile \<Rightarrow> string option" where
  "load_bytes fs (LocalFile cs) = (case fs cs of None \<Rightarrow> None | Some n \<Rightarrow> fn_bytes n)"
| "load_bytes fs NonNativeFile = None"

datatype fs_event = QueryInfo gfile | LoadBytes gfile

datatype io_error = INVALID_ARGUMENT | PERMISSION_DENIED | NOT_FOUND | FAILED

record response =
  rs_bytes :: string
  rs_contentType :: string
  rs_csp :: "string option"

text \<open>
  How a request ends: \<^verbatim>\<open>finish_error\<close>, \<^verbatim>\<open>finish_with_response\<close>, or not at all when an
  exception leaves the handler (it is logged by \<^verbatim>\<open>_onDingWidgetUriRequest\<close>).
\<close>

datatype outcome = FinishError io_error | FinishResponse response | Unfinished

datatype request_uri =
    MissingUri
  | InvalidUri
  | ParsedUri (u_scheme: string) (u_host: "string option") (u_path: string)

record request =
  rq_uri :: request_uri
  rq_webView :: webview

text \<open>The symlink walk: one \<^verbatim>\<open>get_child\<close> and one \<^verbatim>\<open>query_info\<close> per component.\<close>

datatype walk_result = WalkDone gfile | WalkSymlink | WalkThrew

fun symlink_walk ::
  "filesystem \<Rightarrow> gfile \<Rightarrow> string list \<Rightarrow> walk_result \<times> fs_event list" where
  "symlink_walk fs file [] = (WalkDone file, [])"
| "symlink_walk fs file (part # parts) =
     (let child = get_child file part
      in case query_info fs child of
           None \<Rightarrow> (WalkThrew, [QueryInfo child])
         | Some info \<Rightarrow>
             if fn_isSymlink info then (WalkSymlink, [QueryInfo child])
             else (case symlink_walk fs child parts of
                     (r, evs) \<Rightarrow> (r, QueryInfo child # evs)))"

text \<open>The forced content types; \<open>guessed\<close> is what \<^verbatim>\<open>Gio.content_type_guess\<close> said.\<close>

definition mime_type :: "string \<Rightarrow> string option \<Rightarrow> string" where
  "mime_type filePath guessed =
     (if suffix ''.html'' filePath \<or> suffix ''.htm'' filePath then ''text/html''
      else if suffix ''.css'' filePath then ''text/css''
      else if suffix ''.js'' filePath then ''application/javascript''
      else case guessed of
             Some t \<Rightarrow> (if t = [] then ''application/octet-stream'' else t)
           | None \<Rightarrow> ''application/octet-stream'')"

text \<open>
  The handler from the normalisation of the path on, with the root already resolved:
  the lexical confinement check, the symlink walk, the load and the response.
\<close>

definition serve_from_root ::
  "filesystem \<Rightarrow> (string \<Rightarrow> string \<Rightarrow> string option) \<Rightarrow> string \<Rightarrow> gfile \<Rightarrow> string \<Rightarrow> string \<Rightarrow>
   outcome \<times> fs_event list" where
  "serve_from_root fs guess csp rootDir rootPath path =
     (let rel = effectiveRelPath path
      in if rel = [] then (FinishError NOT_FOUND, [])
         else if rootPath = [] then (FinishError FAILED, [])
         else
           let candidatePath = build_filenamev rootPath rel;
               canonRoot = canonicalize_filename rootPath;
               canonFile = canonicalize_filename candidatePath;
               normalizedRoot = (if suffix ''/'' canonRoot then canonRoot else canonRoot @ ''/'')
           in if \<not> prefix normalizedRoot canonFile then (FinishError PERMISSION_DENIED, [])
              else
                case symlink_walk fs rootDir (filter (\<lambda>p. p \<noteq> []) (split_slash rel)) of
                  (WalkSymlink, evs) \<Rightarrow> (FinishError PERMISSION_DENIED, evs)
                | (WalkThrew, evs) \<Rightarrow> (FinishError NOT_FOUND, evs)
                | (WalkDone file, evs) \<Rightarrow>
                    (case load_bytes fs file of
                       None \<Rightarrow> (FinishError NOT_FOUND, evs @ [LoadBytes file])
                     | Some bytes \<Rightarrow>
                         let filePath = (case get_path file of Some p \<Rightarrow> p | None \<Rightarrow> [])
                         in (FinishResponse
                               \<lparr> rs_bytes = bytes,
                                 rs_contentType = mime_type filePath (guess filePath bytes),
                                 rs_csp = (if csp = [] then None else Some csp) \<rparr>,
                             evs @ [LoadBytes file])))"

text \<open>
  \<^verbatim>\<open>_getInstanceRoot\<close>: the cached root, or the directory of the descriptor of the
  instance's widget; \<^verbatim>\<open>inst.widgetId\<close> throws when the manager has no such instance.
\<close>

definition getInstanceRoot ::
  "scan_state \<Rightarrow> manager \<Rightarrow> string \<Rightarrow> web_context \<Rightarrow> (gfile option, web_context) result" where
  "getInstanceRoot reg m i c =
     (case map_of (instanceRoots c) i of
        Some dir \<Rightarrow> Returned (Some dir) c
      | None \<Rightarrow>
          (case getInstance m i of
             None \<Rightarrow> Threw c
           | Some inst \<Rightarrow>
               (case getDescriptor reg (widgetId inst) of
                  None \<Rightarrow> Returned None c
                | Some desc \<Rightarrow>
                    Returned (Some (d_dir desc))
                      (c\<lparr> instanceRoots := map_set i (d_dir desc) (instanceRoots c) \<rparr>))))"

text \<open>\<^verbatim>\<open>newViewForInstance\<close>: the view with its root, widget id and instance id bound.\<close>

definition newViewForInstance ::
  "scan_state \<Rightarrow> manager \<Rightarrow> string \<Rightarrow> string \<Rightarrow> web_context \<Rightarrow> (webview, web_context) result" where
  "newViewForInstance reg m wid i c =
     (case getInstanceRoot reg m i c of
        Threw c' \<Rightarrow> Threw c'
      | Returned rootDir c' \<Rightarrow>
          Returned \<lparr> wv_dingWidgetRoot = rootDir, wv_dingWidgetId = wid,
                     wv_dingInstanceId = i, wv_page = NoPage \<rparr> c')"

text \<open>\<^verbatim>\<open>_onDingWidgetUriRequestAsync\<close>.\<close>

definition onDingWidgetUriRequestAsync ::
  "scan_state \<Rightarrow> manager \<Rightarrow> filesystem \<Rightarrow> (string \<Rightarrow> string \<Rightarrow> string option) \<Rightarrow> request \<Rightarrow>
   web_context \<Rightarrow> outcome \<times> fs_event list \<times> web_context" where
  "onDingWidgetUriRequestAsync reg m fs guess rq c =
     (case rq_uri rq of
        MissingUri \<Rightarrow> (FinishError INVALID_ARGUMENT, [], c)
      | InvalidUri \<Rightarrow> (FinishError INVALID_ARGUMENT, [], c)
      | ParsedUri scheme hostname path \<Rightarrow>
          if scheme \<noteq> ''ding-widget'' then (FinishError INVALID_ARGUMENT, [], c)
          else if hostname = None \<or> hostname = Some [] then (FinishError INVALID_ARGUMENT, [], c)
          else
            let i = (case hostname of Some h \<Rightarrow> h | None \<Rightarrow> []);
                webView = rq_webView rq
            in if wv_dingWidgetRoot webView = None \<or> wv_dingInstanceId webView \<noteq> i
               then (FinishError PERMISSION_DENIED, [], c)
               else
                 case getInstanceRoot reg m i c of
                   Threw c' \<Rightarrow> (Unfinished, [], c')
                 | Returned None c' \<Rightarrow> (FinishError NOT_FOUND, [], c')
                 | Returned (Some rootDir) c' \<Rightarrow>
                     (case (case wv_dingWidgetRoot webView of Some b \<Rightarrow> get_path b | None \<Rightarrow> None) of
                        None \<Rightarrow> (FinishError PERMISSION_DENIED, [], c')
                      | Some boundRootPath \<Rightarrow>
                          (case get_path rootDir of
                             None \<Rightarrow> (FinishError PERMISSION_DENIED, [], c')
                           | Some registryRootPath \<Rightarrow>
                               if boundRootPath \<noteq> registryRootPath
                               then (FinishError PERMISSION_DENIED, [], c')
                               else
                                 (case serve_from_root fs guess (cspString c') rootDir
                                         registryRootPath path of
                                    (out, evs) \<Rightarrow> (out, evs, c')))))"

text \<open>
  An example bundle \<^verbatim>\<open>/usr/share/ding/widgets/clock\<close> with a page, a directory and a
  symbolic link, a context in which the instance \<^verbatim>\<open>abc\<close> is bound to it, and requests on the
  view of that instance.
\<close>

definition example_root :: gfile where
  "example_root = LocalFile [''usr'', ''share'', ''ding'', ''widgets'', ''clock'']"

definition example_fs :: filesystem where
  "example_fs = map_of
     [([''usr'', ''share'', ''ding'', ''widgets'', ''clock''],
         \<lparr> fn_isSymlink = False, fn_bytes = None \<rparr>),
      ([''usr'', ''share'', ''ding'', ''widgets'', ''clock'', ''index.html''],
         \<lparr> fn_isSymlink = False, fn_bytes = Some ''<html></html>'' \<rparr>),
      ([''usr'', ''share'', ''ding'', ''widgets'', ''clock'', ''a''],
         \<lparr> fn_isSymlink = False, fn_bytes = None \<rparr>),
      ([''usr'', ''share'', ''ding'', ''widgets'', ''clock'', ''link''],
         \<lparr> fn_isSymlink = True, fn_bytes = Some ''root:x:0:0'' \<rparr>)]"

definition example_context :: web_context where
  "example_context =
     \<lparr> prefsWindow = None, prefsHost = None, prefsInstanceId = None,
       instanceRoots = [(''abc'', example_root)], cspString = ''default-src none'',
       openWindows = [], windowsCreated = 0, presented = [] \<rparr>"

definition example_manager :: manager where
  "example_manager =
     \<lparr> instances = [], selectedInstanceId = None, suppressStateEvents = False,
       surfaces = [], showDesktopWidgets = True, widgetState = None,
       webWidgetContext = None \<rparr>"

definition example_request :: "string \<Rightarrow> request" where
  "example_request path =
     \<lparr> rq_uri = ParsedUri ''ding-widget'' (Some ''abc'') path, rq_webView = example_view \<rparr>"

definition no_guess :: "string \<Rightarrow> string \<Rightarrow> string option" where
  "no_guess filePath bytes = None"

subsection \<open>What the confinement claims speak about\<close>

text \<open>
  A root directory is canonical when none of its components is empty, contains a separator
  or is \<^verbatim>\<open>.\<close> or \<^verbatim>\<open>..\<close>; the files Gio hands out are of this kind.
\<close>

definition canonical_comps :: "string list \<Rightarrow> bool" where
  "canonical_comps cs =
     list_all (\<lambda>c. c \<noteq> [] \<and> CHR ''/'' \<notin> set c \<and> c \<noteq> ''.'' \<and> c \<noteq> ''..'') cs"

text \<open>
  A relative path resolves outside a root when the file it denotes from that root is neither
  the root nor below it.
\<close>

fun resolves_outside :: "gfile \<Rightarrow> string \<Rightarrow> bool" where
  "resolves_outside (LocalFile cs) rel = (\<not> prefix cs (comps (get_child (LocalFile cs) rel)))"
| "resolves_outside NonNativeFile rel = False"




fun is_response :: "outcome \<Rightarrow> bool" where
  "is_response (FinishResponse r) = True"
| "is_response _ = False"

fun is_load :: "fs_event \<Rightarrow> bool" where
  "is_load (LoadBytes f) = True"
| "is_load (QueryInfo f) = False"

section \<open>Widget manager and web widget context: the operations\<close>

text \<open>
  The cases of the switch in \<^verbatim>\<open>_setCspString\<close>.  The object \<^verbatim>\<open>Enums\<close> is not among the
  sources: which case \<^verbatim>\<open>Enums.DEFAULT_CSP_PROFILE\<close> selects is read from the environment,
  and so is the value of \<^verbatim>\<open>Enums.CspProfile.STRICT\<close>, which the default case assigns.
\<close>

datatype csp_profile = ProfileStrict | ProfileDev | ProfileRelaxed | ProfileOther

text \<open>
  What the code reads from outside the modelled state: two preferences, the locale, the
  profile of the content security policy with the value of \<^verbatim>\<open>Enums.CspProfile.STRICT\<close>
  (\<open>None\<close> when it is not a string), and the GTK scene (whether the widget layer of a
  monitor is on top, the text direction of an instance's actor, and the index, in its
  container, of the first child that carries an instance id).
\<close>

record ui_env =
  darkmode :: bool
  globalAnimations :: bool
  localeName :: string
  cspProfile :: csp_profile
  strictProfileValue :: "string option"
  containerOnTop :: "int \<Rightarrow> bool"
  actorRtl :: "string \<Rightarrow> bool"
  childIndex :: "string \<Rightarrow> nat option"

text \<open>Sequencing of calls that may throw.\<close>

fun fold_result :: "('a \<Rightarrow> 's \<Rightarrow> (unit, 's) result) \<Rightarrow> 'a list \<Rightarrow> 's \<Rightarrow> (unit, 's) result" where
  "fold_result f [] s = Returned () s"
| "fold_result f (x # xs) s =
     (case f x s of Returned _ s' \<Rightarrow> fold_result f xs s' | Threw s' \<Rightarrow> Threw s')"

text \<open>An instance is an object; a write through a reference to it is a write in the map.\<close>

definition modify_instance ::
  "string \<Rightarrow> (widget_instance \<Rightarrow> widget_instance) \<Rightarrow> manager \<Rightarrow> manager" where
  "modify_instance i f m =
     m\<lparr> instances := map (\<lambda>(k, x). if k = i then (k, f x) else (k, x)) (instances m) \<rparr>"

subsection \<open>Preferences window\<close>

text \<open>\<^verbatim>\<open>this._prefsHost?.destroy()\<close>.\<close>

fun destroy_opt :: "host option \<Rightarrow> (unit, host option) result" where
  "destroy_opt None = Returned () None"
| "destroy_opt (Some h) =
     (case destroy h of Returned _ h' \<Rightarrow> Returned () (Some h') | Threw h' \<Rightarrow> Threw (Some h'))"

definition closePreferencesIfAny :: "web_context \<Rightarrow> (unit, web_context) result" where
  "closePreferencesIfAny c =
     (case prefsWindow c of
        None \<Rightarrow> Returned () c
      | Some w \<Rightarrow>
          (case destroy_opt (prefsHost c) of
             Threw h' \<Rightarrow> Threw (c\<lparr> prefsHost := h' \<rparr>)
           | Returned _ h' \<Rightarrow>
               Returned () (c\<lparr> prefsHost := None, prefsWindow := None, prefsInstanceId := None,
                               openWindows := removeAll w (openWindows c) \<rparr>)))"

text \<open>The argument is \<open>None\<close> when the method is called without one.\<close>

definition closePreferencesForInstance ::
  "string option \<Rightarrow> web_context \<Rightarrow> (unit, web_context) result" where
  "closePreferencesForInstance i c =
     (if i = None \<or> i = Some [] \<or> i \<noteq> prefsInstanceId c then Returned () c
      else closePreferencesIfAny c)"

definition openPreferencesForInstance ::
  "manager \<Rightarrow> string \<Rightarrow> string option \<Rightarrow> web_context \<Rightarrow> (unit, web_context) result" where
  "openPreferencesForInstance m i uri c =
     (if i = [] \<or> uri = None \<or> uri = Some [] then Returned () c
      else if selectedInstanceId m = None \<or> selectedInstanceId m = Some [] \<or>
              selectedInstanceId m \<noteq> Some i then Returned () c
      else case (if prefsInstanceId c = Some i then prefsWindow c else None) of
        Some w \<Rightarrow> Returned () (c\<lparr> presented := presented c @ [w] \<rparr>)
      | None \<Rightarrow>
          (case closePreferencesIfAny c of
             Threw c1 \<Rightarrow> Threw c1
           | Returned _ c1 \<Rightarrow>
               (case getInstance m i of
                  None \<Rightarrow> Returned () c1
                | Some inst \<Rightarrow>
                    Returned ()
                      (c1\<lparr> prefsHost := Some (new_host i (widgetId inst) PrefsMode uri),
                            prefsWindow := Some (windowsCreated c1),
                            prefsInstanceId := Some i,
                            openWindows := openWindows c1 @ [windowsCreated c1],
                            windowsCreated := Suc (windowsCreated c1),
                            presented := presented c1 @ [windowsCreated c1] \<rparr>))))"

text \<open>
  The \<^verbatim>\<open>close-request\<close> handler of window \<open>w\<close>; it returns false, so the window closes.
  When the handler is left by an exception the fields are not cleared, and the window closes
  all the same.
\<close>

definition onCloseRequest :: "nat \<Rightarrow> web_context \<Rightarrow> web_context" where
  "onCloseRequest w c =
     (case destroy_opt (prefsHost c) of
        Threw h' \<Rightarrow> c\<lparr> prefsHost := h', openWindows := removeAll w (openWindows c) \<rparr>
      | Returned _ h' \<Rightarrow>
          c\<lparr> prefsHost := None, prefsWindow := None, prefsInstanceId := None,
             openWindows := removeAll w (openWindows c) \<rparr>)"

text \<open>The policies \<^verbatim>\<open>CSP_STRICT\<close> and \<^verbatim>\<open>CSP_DEV\<close> of the widget API module.\<close>

definition CSP_STRICT :: string where
  "CSP_STRICT =
     ''\<newline>'' @
     ''default-src 'none';\<newline>'' @
     ''base-uri 'none';\<newline>'' @
     ''object-src 'none';\<newline>'' @
     ''frame-ancestors 'none';\<newline>'' @
     ''form-action 'none';\<newline>'' @
     ''\<newline>'' @
     ''script-src 'self' 'unsafe-inline';\<newline>'' @
     ''style-src  'self' 'unsafe-inline';\<newline>'' @
     ''\<newline>'' @
     ''img-src    'self' data: blob:;\<newline>'' @
     ''font-src   'self' data:;\<newline>'' @
     ''media-src  'self' blob:;\<newline>'' @
     ''\<newline>'' @
     ''connect-src 'self' https: ;\<newline>'' @
     ''navigate-to 'self';\<newline>'' @
     ''block-all-mixed-content;\<newline>'' @
     ''\<newline>'' @
     ''worker-src 'none';\<newline>'' @
     ''frame-src  'none';\<newline>''"

definition CSP_DEV :: string where
  "CSP_DEV =
     ''\<newline>'' @
     ''default-src 'none';\<newline>'' @
     ''base-uri 'none';\<newline>'' @
     ''object-src 'none';\<newline>'' @
     ''frame-ancestors 'none';\<newline>'' @
     ''form-action 'none';\<newline>'' @
     ''\<newline>'' @
     ''script-src 'self' 'unsafe-inline';\<newline>'' @
     ''style-src  'self' 'unsafe-inline';\<newline>'' @
     ''\<newline>'' @
     ''img-src    'self' data: blob:;\<newline>'' @
     ''font-src   'self' data:;\<newline>'' @
     ''media-src  'self' blob:;\<newline>'' @
     ''\<newline>'' @
     ''connect-src\<newline>'' @
     ''    'self'\<newline>'' @
     ''    https:\<newline>'' @
     ''    http:\<newline>'' @
     ''    http://localhost:*\<newline>'' @
     ''    ws://localhost:*;\<newline>'' @
     ''\<newline>'' @
     ''worker-src 'none';\<newline>'' @
     ''frame-src  'none';\<newline>''"

text \<open>
  \<^verbatim>\<open>_setCspString\<close>: the policy of the profile with its white space normalised.  The case
  \<^verbatim>\<open>RELAXED\<close> reads \<^verbatim>\<open>WidgetApi.RELAXED\<close>, which the module does not export (it exports
  \<^verbatim>\<open>CSP_RELAXED\<close>), so \<^verbatim>\<open>cspString.replace\<close> throws; the default case assigns the value
  of \<^verbatim>\<open>Enums.CspProfile.STRICT\<close> and throws likewise when that is not a string.  \<open>None\<close>
  stands for the exception.
\<close>

definition setCspString :: "ui_env \<Rightarrow> string option" where
  "setCspString env =
     (case cspProfile env of
        ProfileStrict \<Rightarrow> Some (trim (squeeze False CSP_STRICT))
      | ProfileDev \<Rightarrow> Some (trim (squeeze False CSP_DEV))
      | ProfileRelaxed \<Rightarrow> None
      | ProfileOther \<Rightarrow>
          (case strictProfileValue env of
             None \<Rightarrow> None
           | Some v \<Rightarrow> Some (trim (squeeze False v))))"

text \<open>
  The constructor of the context; it ends with \<^verbatim>\<open>_setCspString\<close>, and when that throws no
  context is made.
\<close>

definition new_context :: "ui_env \<Rightarrow> web_context option" where
  "new_context env =
     (case setCspString env of
        None \<Rightarrow> None
      | Some csp \<Rightarrow>
          Some \<lparr> prefsWindow = None, prefsHost = None, prefsInstanceId = None,
                 instanceRoots = [], cspString = csp, openWindows = [], windowsCreated = 0,
                 presented = [] \<rparr>)"

text \<open>The life of the preferences window as a sequence of events on one context.\<close>

datatype prefs_event =
    EvOpen manager string "string option"
  | EvCloseForInstance "string option"
  | EvCloseIfAny
  | EvCloseRequest

fun prefs_step :: "prefs_event \<Rightarrow> web_context \<Rightarrow> web_context" where
  "prefs_step (EvOpen m i uri) c = state_of (openPreferencesForInstance m i uri c)"
| "prefs_step (EvCloseForInstance i) c = state_of (closePreferencesForInstance i c)"
| "prefs_step EvCloseIfAny c = state_of (closePreferencesIfAny c)"
| "prefs_step EvCloseRequest c =
     (case openWindows c of [] \<Rightarrow> c | w # _ \<Rightarrow> onCloseRequest w c)"

subsection \<open>Posting to the surfaces\<close>

text \<open>
  The methods of the context below act on the context the manager holds; with no context
  there is nobody to call them.
\<close>

definition postToWidget :: "string \<Rightarrow> json \<Rightarrow> manager \<Rightarrow> manager" where
  "postToWidget i msg m =
     modify_instance i
       (\<lambda>inst. case host inst of None \<Rightarrow> inst
                | Some h \<Rightarrow> inst\<lparr> host := Some (postMessage msg h) \<rparr>) m"

definition postToPrefs :: "string \<Rightarrow> json \<Rightarrow> manager \<Rightarrow> manager" where
  "postToPrefs i msg m =
     (case webWidgetContext m of
        None \<Rightarrow> m
      | Some c \<Rightarrow>
          (case prefsHost c of
             None \<Rightarrow> m
           | Some ph \<Rightarrow>
               if prefsInstanceId c = Some i
               then m\<lparr> webWidgetContext := Some (c\<lparr> prefsHost := Some (postMessage msg ph) \<rparr>) \<rparr>
               else m))"

definition postToBoth :: "string \<Rightarrow> json \<Rightarrow> manager \<Rightarrow> manager" where
  "postToBoth i msg m = postToPrefs i msg (postToWidget i msg m)"

text \<open>\<open>mode\<close> is the \<^verbatim>\<open>mode\<close> field of the payload, \<open>None\<close> when it is absent.\<close>

definition routeAndPost :: "json option \<Rightarrow> string \<Rightarrow> json \<Rightarrow> manager \<Rightarrow> manager" where
  "routeAndPost mode i msg m =
     (if mode = Some (JStr ''prefs'') then postToPrefs i msg m
      else if mode = Some (JStr ''widget'') then postToWidget i msg m
      else postToBoth i msg m)"

definition config_or_empty :: "json \<Rightarrow> json" where
  "config_or_empty cfg = (if truthy cfg then cfg else JObj [])"

definition configChanged_message :: "widget_instance \<Rightarrow> json option \<Rightarrow> json" where
  "configChanged_message inst mode =
     JObj [(''_dingInternal'', JBool True),
           (''type'', JStr ''configChanged''),
           (''instanceId'', JStr (instanceId inst)),
           (''config'', config_or_empty (config inst)),
           (''reason'', JStr ''configSaved''),
           (''sourceMode'', (case mode of None \<Rightarrow> JNull | Some v \<Rightarrow> v))]"

definition pushConfigChangedForInstance :: "string \<Rightarrow> json option \<Rightarrow> manager \<Rightarrow> manager" where
  "pushConfigChangedForInstance i mode m =
     (case getInstance m i of
        None \<Rightarrow> m
      | Some inst \<Rightarrow> postToBoth i (configChanged_message inst mode) m)"

definition getConfig_reply :: "widget_instance \<Rightarrow> json option \<Rightarrow> json" where
  "getConfig_reply inst requestId =
     JObj ([(''_dingInternal'', JBool True)] @
           (case requestId of None \<Rightarrow> [] | Some r \<Rightarrow> [(''requestId'', r)]) @
           [(''config'', config_or_empty (config inst))])"

definition doWidgetGetConfig :: "string \<Rightarrow> json option \<Rightarrow> json option \<Rightarrow> manager \<Rightarrow> manager" where
  "doWidgetGetConfig i mode requestId m =
     (case getInstance m i of
        None \<Rightarrow> m
      | Some inst \<Rightarrow> routeAndPost mode i (getConfig_reply inst requestId) m)"

definition pushPatchtoTarget :: "string \<Rightarrow> json \<Rightarrow> manager \<Rightarrow> manager" where
  "pushPatchtoTarget i patch m =
     (case getInstance m i of
        None \<Rightarrow> m
      | Some inst \<Rightarrow>
          (case host inst of
             None \<Rightarrow> m
           | Some h \<Rightarrow>
               if kind inst \<noteq> ''html'' then m
               else
                 let m1 = modify_instance i (\<lambda>x. x\<lparr> host := Some (setHostStatePatch patch h) \<rparr>) m
                 in case webWidgetContext m1 of
                      None \<Rightarrow> m1
                    | Some c \<Rightarrow>
                        (case prefsHost c of
                           None \<Rightarrow> m1
                         | Some ph \<Rightarrow>
                             if prefsInstanceId c = Some i
                             then m1\<lparr> webWidgetContext :=
                                        Some (c\<lparr> prefsHost := Some (setHostStatePatch patch ph) \<rparr>) \<rparr>
                             else m1)))"

definition updateHtmlWidgetSelected :: "string \<Rightarrow> bool \<Rightarrow> manager \<Rightarrow> manager" where
  "updateHtmlWidgetSelected i selected m =
     pushPatchtoTarget i (JObj [(''selected'', JBool selected)]) m"

definition computeHostStateForInstance :: "ui_env \<Rightarrow> manager \<Rightarrow> widget_instance \<Rightarrow> json" where
  "computeHostStateForInstance env m inst =
     JObj [(''editMode'', JBool (monitorIndex inst \<in> set (surfaces m) \<and>
                                  containerOnTop env (monitorIndex inst))),
           (''selected'', JBool (selectedInstanceId m = Some (instanceId inst))),
           (''theme'', JStr (if darkmode env then ''dark'' else ''light'')),
           (''reducedMotion'', JBool (\<not> globalAnimations env)),
           (''direction'', JStr (if actor inst \<noteq> None \<and> actorRtl env (instanceId inst)
                                then ''rtl'' else ''ltr'')),
           (''locale'', JStr (localeName env))]"

definition pushFullHostStateForInstance :: "ui_env \<Rightarrow> string \<Rightarrow> manager \<Rightarrow> manager" where
  "pushFullHostStateForInstance env i m =
     (case getInstance m i of
        None \<Rightarrow> m
      | Some inst \<Rightarrow> pushPatchtoTarget i (computeHostStateForInstance env m inst) m)"

subsection \<open>Export\<close>

text \<open>
  The three methods of the export read the manager and write nothing in it; each is given
  as the value it returns together with the manager it leaves behind.
\<close>

definition computeZIndexByInstanceId ::
  "ui_env \<Rightarrow> manager \<Rightarrow> (string \<Rightarrow> nat option) \<times> manager" where
  "computeZIndexByInstanceId env m =
     (\<lambda>i. case getInstance m i of
             None \<Rightarrow> None
           | Some inst \<Rightarrow> if isAddButton inst then None else childIndex env i,
      m)"

text \<open>The comparator of the sort: monitor index first, then stacking index, \<open>-1\<close> without one.\<close>

definition export_compare ::
  "(string \<Rightarrow> nat option) \<Rightarrow> widget_instance \<Rightarrow> widget_instance \<Rightarrow> int" where
  "export_compare z a b =
     (if monitorIndex a \<noteq> monitorIndex b then monitorIndex a - monitorIndex b
      else (case z (instanceId a) of None \<Rightarrow> -1 | Some n \<Rightarrow> int n) -
           (case z (instanceId b) of None \<Rightarrow> -1 | Some n \<Rightarrow> int n))"

text \<open>\<^verbatim>\<open>Array.prototype.sort\<close> is stable: an element stays before the later ones it equals.\<close>

fun insert_sorted :: "('a \<Rightarrow> 'a \<Rightarrow> int) \<Rightarrow> 'a \<Rightarrow> 'a list \<Rightarrow> 'a list" where
  "insert_sorted cmp x [] = [x]"
| "insert_sorted cmp x (y # ys) =
     (if cmp x y \<le> 0 then x # y # ys else y # insert_sorted cmp x ys)"

definition stable_sort :: "('a \<Rightarrow> 'a \<Rightarrow> int) \<Rightarrow> 'a list \<Rightarrow> 'a list" where
  "stable_sort cmp xs = foldr (insert_sorted cmp) xs []"

definition sortedInstancesForExport ::
  "(string \<Rightarrow> nat option) \<Rightarrow> manager \<Rightarrow> widget_instance list \<times> manager" where
  "sortedInstancesForExport z m =
     (stable_sort (export_compare z)
        (filter (\<lambda>inst. \<not> isAddButton inst) (map snd (instances m))),
      m)"

text \<open>The entry written for one instance.\<close>

definition export_entry :: "widget_instance \<Rightarrow> state_entry" where
  "export_entry inst =
     \<lparr> s_instanceId = Some (instanceId inst),
       s_widgetId = Some (widgetId inst),
       s_monitorIndex = Some (monitorIndex inst),
       s_kind = Some (kind inst),
       s_normX = Some (normX inst),
       s_normY = Some (normY inst),
       s_width = Some (width inst),
       s_height = Some (height inst),
       s_config = Some (if config inst = JNull then JObj [] else config inst),
       s_prefsUri = prefsUri inst,
       s_hasPreferences = Some (hasPreferences inst = Some True) \<rparr>"

definition exportState :: "ui_env \<Rightarrow> manager \<Rightarrow> state_doc \<times> manager" where
  "exportState env m =
     (case computeZIndexByInstanceId env m of
        (z, m1) \<Rightarrow>
          (case sortedInstancesForExport z m1 of
             (sortedInstances, m2) \<Rightarrow>
               (\<lparr> s_version = Some 1, s_instances = Some (map export_entry sortedInstances) \<rparr>,
                m2)))"

text \<open>\<^verbatim>\<open>_stateChanged\<close>: the exported document goes to the preferences.\<close>

definition stateChanged :: "ui_env \<Rightarrow> manager \<Rightarrow> manager" where
  "stateChanged env m =
     (if suppressStateEvents m then m
      else case exportState env m of
             (stateObj, m1) \<Rightarrow> m1\<lparr> widgetState := Some stateObj \<rparr>)"

definition updateInstanceConfig :: "ui_env \<Rightarrow> string \<Rightarrow> json \<Rightarrow> manager \<Rightarrow> manager" where
  "updateInstanceConfig env i newConfig m =
     (case getInstance m i of
        None \<Rightarrow> m
      | Some inst \<Rightarrow> stateChanged env (modify_instance i (\<lambda>x. x\<lparr> config := newConfig \<rparr>) m))"

text \<open>\<^verbatim>\<open>v ?? d\<close>: the value, or the default when it is null or absent.\<close>

fun the_default :: "'a \<Rightarrow> 'a option \<Rightarrow> 'a" where
  "the_default d None = d"
| "the_default d (Some v) = v"

subsection \<open>Selection, actors and removal\<close>

text \<open>
  Of the methods below only the writes to the modelled state are kept; calls that touch
  nothing but GTK widgets (style classes, chrome buttons, stacking, focus) are left out.
\<close>

definition updateWidgetsSelectionState :: "manager \<Rightarrow> manager" where
  "updateWidgetsSelectionState m =
     fold (\<lambda>i m'.
             case getInstance m' i of
               None \<Rightarrow> m'
             | Some inst \<Rightarrow>
                 if kind inst = ''html'' \<and> actor inst \<noteq> None \<and> host inst \<noteq> None \<and>
                    webWidgetContext m' \<noteq> None
                 then updateHtmlWidgetSelected i (selectedInstanceId m' = Some i) m'
                 else m')
          (map fst (instances m)) m"

text \<open>\<^verbatim>\<open>this._webWidgetContext?.closePreferencesIfAny()\<close>.\<close>

definition manager_closePreferencesIfAny :: "manager \<Rightarrow> (unit, manager) result" where
  "manager_closePreferencesIfAny m =
     (case webWidgetContext m of
        None \<Rightarrow> Returned () m
      | Some c \<Rightarrow>
          (case closePreferencesIfAny c of
             Returned _ c' \<Rightarrow> Returned () (m\<lparr> webWidgetContext := Some c' \<rparr>)
           | Threw c' \<Rightarrow> Threw (m\<lparr> webWidgetContext := Some c' \<rparr>)))"

definition selectInstance :: "string option \<Rightarrow> manager \<Rightarrow> (unit, manager) result" where
  "selectInstance i m =
     (case (case selectedInstanceId m of
              None \<Rightarrow> Returned () m
            | Some old \<Rightarrow>
                if old \<noteq> [] \<and> Some old \<noteq> i \<and>
                   (case getInstance m old of None \<Rightarrow> False | Some oldInst \<Rightarrow> actor oldInst \<noteq> None)
                then manager_closePreferencesIfAny m
                else Returned () m) of
        Threw m1 \<Rightarrow> Threw m1
      | Returned _ m1 \<Rightarrow>
          if i = None \<or> i = Some [] then
            manager_closePreferencesIfAny
              (updateWidgetsSelectionState (m1\<lparr> selectedInstanceId := None \<rparr>))
          else if (case getInstance m1 (the_default [] i) of
                     None \<Rightarrow> True
                   | Some inst \<Rightarrow> actor inst = None \<or> isAddButton inst)
          then Returned () (updateWidgetsSelectionState (m1\<lparr> selectedInstanceId := None \<rparr>))
          else Returned () (updateWidgetsSelectionState (m1\<lparr> selectedInstanceId := i \<rparr>)))"

text \<open>
  \<^verbatim>\<open>_removeActor\<close>: the actor is taken out of its parent first, then the host is
  destroyed, and only then the instance leaves the map; an exception of \<^verbatim>\<open>destroy\<close>
  leaves the instance in the map, with its actor unparented.
\<close>

definition removeActor :: "string \<Rightarrow> manager \<Rightarrow> (unit, manager) result" where
  "removeActor i m =
     (case getInstance m i of
        None \<Rightarrow> Returned () m
      | Some inst \<Rightarrow>
          (case destroy_opt (host inst) of
             Threw h' \<Rightarrow>
               Threw (modify_instance i
                        (\<lambda>x. x\<lparr> host := h',
                                actor := (case actor x of None \<Rightarrow> None | Some _ \<Rightarrow> Some False) \<rparr>)
                        m)
           | Returned _ h' \<Rightarrow> Returned () (m\<lparr> instances := map_delete i (instances m) \<rparr>)))"

text \<open>
  \<^verbatim>\<open>_ensureWebWidgetContext\<close>: the context is made on first use; when its constructor
  throws, the manager still has none.
\<close>

definition ensureWebWidgetContext :: "ui_env \<Rightarrow> manager \<Rightarrow> (unit, manager) result" where
  "ensureWebWidgetContext env m =
     (case webWidgetContext m of
        Some c \<Rightarrow> Returned () m
      | None \<Rightarrow>
          (case new_context env of
             None \<Rightarrow> Threw m
           | Some c \<Rightarrow> Returned () (m\<lparr> webWidgetContext := Some c \<rparr>)))"

text \<open>
  \<^verbatim>\<open>_ensureInstanceActor\<close> with \<^verbatim>\<open>_createActorForInstance\<close>: every widget is of the
  HTML kind, so an instance of the map gets a host and the host's frame as its actor; for an
  object that is not in the map no actor is made and the assignment to
  \<^verbatim>\<open>inst.actor.widgetInstanceId\<close> throws.  The exception of the context's constructor
  passes through, before a host is made.
\<close>

definition ensureInstanceActor :: "ui_env \<Rightarrow> string \<Rightarrow> manager \<Rightarrow> (unit, manager) result" where
  "ensureInstanceActor env i m =
     (if \<not> showDesktopWidgets m then Returned () m
      else case getInstance m i of
             None \<Rightarrow> Threw m
           | Some inst \<Rightarrow>
               if actor inst \<noteq> None then Returned () m
               else case ensureWebWidgetContext env m of
                      Threw m1 \<Rightarrow> Threw m1
                    | Returned _ m1 \<Rightarrow>
                        Returned ()
                          (modify_instance i
                             (\<lambda>x. x\<lparr> host := Some (new_host i (widgetId x) WidgetMode None),
                                     actor := Some False \<rparr>)
                             m1))"

text \<open>
  \<^verbatim>\<open>_positionInstanceActor\<close>: an actor without a parent is put into the container of its
  surface; one with a parent is moved, and the move is reported by \<^verbatim>\<open>_stateChanged\<close>.
\<close>

definition positionInstanceActor :: "ui_env \<Rightarrow> string \<Rightarrow> manager \<Rightarrow> manager" where
  "positionInstanceActor env i m =
     (case getInstance m i of
        None \<Rightarrow> m
      | Some inst \<Rightarrow>
          (case actor inst of
             None \<Rightarrow> m
           | Some parented \<Rightarrow>
               if monitorIndex inst \<notin> set (surfaces m) then m
               else if \<not> parented then modify_instance i (\<lambda>x. x\<lparr> actor := Some True \<rparr>) m
               else stateChanged env m))"

subsection \<open>Loading\<close>

text \<open>\<^verbatim>\<open>!!s\<close> for a string that may be null or absent.\<close>

fun truthy_string :: "string option \<Rightarrow> bool" where
  "truthy_string None = False"
| "truthy_string (Some s) = (s \<noteq> [])"

definition entry_config :: "state_entry \<Rightarrow> json" where
  "entry_config e = (case s_config e of None \<Rightarrow> JObj [] | Some v \<Rightarrow> if v = JNull then JObj [] else v)"

text \<open>The fields \<^verbatim>\<open>loadState\<close> writes into an instance it finds in the map.\<close>

definition load_into :: "state_entry \<Rightarrow> widget_instance \<Rightarrow> widget_instance" where
  "load_into e inst =
     inst\<lparr> widgetId := the_default [] (s_widgetId e),
           monitorIndex := the_default 0 (s_monitorIndex e),
           kind := the_default ''html'' (s_kind e),
           normX := the_default 0 (s_normX e),
           normY := the_default 0 (s_normY e),
           width := the_default 200 (s_width e),
           height := the_default 150 (s_height e),
           config := entry_config e,
           prefsUri := s_prefsUri e,
           hasPreferences :=
             Some (case s_hasPreferences e of Some b \<Rightarrow> b | None \<Rightarrow> truthy_string (s_prefsUri e)) \<rparr>"

text \<open>The instance \<^verbatim>\<open>loadState\<close> makes for an id that is not in the map.\<close>

definition load_new :: "state_entry \<Rightarrow> widget_instance" where
  "load_new e =
     \<lparr> instanceId = the_default [] (s_instanceId e),
       widgetId = the_default [] (s_widgetId e),
       monitorIndex = the_default 0 (s_monitorIndex e),
       kind = the_default ''html'' (s_kind e),
       normX = the_default 0 (s_normX e),
       normY = the_default 0 (s_normY e),
       width = the_default 200 (s_width e),
       height = the_default 150 (s_height e),
       config = entry_config e,
       prefsUri = s_prefsUri e,
       hasPreferences =
         Some (case s_hasPreferences e of Some b \<Rightarrow> b | None \<Rightarrow> truthy_string (s_prefsUri e)),
       actor = None,
       host = None,
       isAddButton = False \<rparr>"

text \<open>The body of the first loop of \<^verbatim>\<open>loadState\<close>.\<close>

definition loadEntry :: "ui_env \<Rightarrow> state_entry \<Rightarrow> manager \<Rightarrow> (unit, manager) result" where
  "loadEntry env e m =
     (if \<not> truthy_string (s_instanceId e) \<or> \<not> truthy_string (s_widgetId e) then Returned () m
      else
        let i = the_default [] (s_instanceId e);
            m1 = (case getInstance m i of
                    Some inst \<Rightarrow> modify_instance i (load_into e) m
                  | None \<Rightarrow> m\<lparr> instances := map_set i (load_new e) (instances m) \<rparr>)
        in if the_default 0 (s_monitorIndex e) \<in> set (surfaces m1)
           then (case ensureInstanceActor env i m1 of
                   Threw m2 \<Rightarrow> Threw m2
                 | Returned _ m2 \<Rightarrow> Returned () (positionInstanceActor env i m2))
           else Returned () m1)"

text \<open>The ids the first loop adds to \<^verbatim>\<open>seen\<close>.\<close>

definition seen_ids :: "state_entry list \<Rightarrow> string list" where
  "seen_ids es =
     map (\<lambda>e. the_default [] (s_instanceId e))
       (filter (\<lambda>e. truthy_string (s_instanceId e) \<and> truthy_string (s_widgetId e)) es)"

text \<open>The body of the second loop, over the keys the map had when the loop began.\<close>

definition removeUnseen :: "string list \<Rightarrow> string \<Rightarrow> manager \<Rightarrow> (unit, manager) result" where
  "removeUnseen seen i m =
     (if (case getInstance m i of None \<Rightarrow> False | Some inst \<Rightarrow> isAddButton inst) then Returned () m
      else if i \<in> set seen then Returned () m
      else removeActor i m)"

text \<open>
  \<^verbatim>\<open>loadState\<close>; the argument is \<open>None\<close> for null, undefined or a value that is not an
  object.  An exception leaves the suppression flag set.
\<close>

definition loadState :: "ui_env \<Rightarrow> state_doc option \<Rightarrow> manager \<Rightarrow> (unit, manager) result" where
  "loadState env state m =
     (case state of
        None \<Rightarrow> Returned () m
      | Some doc \<Rightarrow>
          (case s_instances doc of
             None \<Rightarrow> Returned () m
           | Some entries \<Rightarrow>
               let prevSelection = selectedInstanceId m;
                   previousSuppressionState = suppressStateEvents m
               in case fold_result (loadEntry env) entries (m\<lparr> suppressStateEvents := True \<rparr>) of
                    Threw m1 \<Rightarrow> Threw m1
                  | Returned _ m1 \<Rightarrow>
                      (case fold_result (removeUnseen (seen_ids entries))
                              (map fst (instances m1)) m1 of
                         Threw m2 \<Rightarrow> Threw m2
                       | Returned _ m2 \<Rightarrow>
                           (case selectInstance
                                   (if truthy_string prevSelection \<and>
                                       getInstance m2 (the_default [] prevSelection) \<noteq> None
                                    then prevSelection else None) m2 of
                              Threw m3 \<Rightarrow> Threw m3
                            | Returned _ m3 \<Rightarrow>
                                Returned ()
                                  (m3\<lparr> suppressStateEvents := previousSuppressionState \<rparr>)))))"

subsection \<open>Dispatch of widget messages\<close>

record payload =
  p_instanceId :: string
  p_type :: string
  p_config :: "json option"
  p_requestId :: "json option"
  p_mode :: "json option"

text \<open>The URI of the surface the host hands out, the empty string without one.\<close>

definition host_uri :: "host \<Rightarrow> string" where
  "host_uri h =
     (case webView h of None \<Rightarrow> []
      | Some wv \<Rightarrow> (case get_uri wv of None \<Rightarrow> [] | Some u \<Rightarrow> u))"

text \<open>\<^verbatim>\<open>this.openPreferencesForInstance\<close> and \<^verbatim>\<open>closePreferencesForInstance\<close> on the manager's context.\<close>

definition manager_openPreferences :: "string \<Rightarrow> string option \<Rightarrow> manager \<Rightarrow> (unit, manager) result" where
  "manager_openPreferences i uri m =
     (case webWidgetContext m of
        None \<Rightarrow> Returned () m
      | Some c \<Rightarrow>
          (case openPreferencesForInstance m i uri c of
             Returned _ c' \<Rightarrow> Returned () (m\<lparr> webWidgetContext := Some c' \<rparr>)
           | Threw c' \<Rightarrow> Threw (m\<lparr> webWidgetContext := Some c' \<rparr>)))"

definition manager_closePreferencesForInstance :: "string \<Rightarrow> manager \<Rightarrow> (unit, manager) result" where
  "manager_closePreferencesForInstance i m =
     (case webWidgetContext m of
        None \<Rightarrow> Returned () m
      | Some c \<Rightarrow>
          (case closePreferencesForInstance (Some i) c of
             Returned _ c' \<Rightarrow> Returned () (m\<lparr> webWidgetContext := Some c' \<rparr>)
           | Threw c' \<Rightarrow> Threw (m\<lparr> webWidgetContext := Some c' \<rparr>)))"

text \<open>
  \<^verbatim>\<open>_dispatchWidgetMessage\<close>, taken at the moment it resumes after awaiting the web view of
  the instance's host: the instance and the view are those of that moment.
\<close>

definition dispatchWidgetMessage :: "ui_env \<Rightarrow> payload \<Rightarrow> manager \<Rightarrow> (unit, manager) result" where
  "dispatchWidgetMessage env p m =
     (let i = p_instanceId p
      in case getInstance m i of
           None \<Rightarrow> Returned () m
         | Some inst \<Rightarrow>
             (case host inst of
                None \<Rightarrow> Returned () m
              | Some h \<Rightarrow>
                  if \<not> prefix (''ding-widget://'' @ i @ ''/'') (host_uri h) then Returned () m
                  else if p_type p = ''updateConfig'' then
                    Returned ()
                      (pushConfigChangedForInstance i (p_mode p)
                         (case p_config p of
                            None \<Rightarrow> m
                          | Some cfg \<Rightarrow>
                              if is_object_arg cfg then updateInstanceConfig env i cfg m else m))
                  else if p_type p = ''getConfig'' then
                    Returned () (doWidgetGetConfig i (p_mode p) (p_requestId p) m)
                  else if p_type p = ''hostReady'' then
                    Returned ()
                      (pushConfigChangedForInstance i None (pushFullHostStateForInstance env i m))
                  else if p_type p = ''openPreferences'' then
                    (if hasPreferences inst \<noteq> Some True \<or> \<not> truthy_string (prefsUri inst)
                     then Returned () m
                     else manager_openPreferences i (prefsUri inst) m)
                  else if p_type p = ''closePreferences'' then
                    manager_closePreferencesForInstance i m
                  else Returned () m))"

subsection \<open>What the manager claims speak about\<close>

text \<open>
  The invariant of the preferences window: the windows that exist are at most the one the
  context refers to, and window numbers in use are below the next number.
\<close>

definition prefs_inv :: "web_context \<Rightarrow> bool" where
  "prefs_inv c =
     (distinct (openWindows c) \<and>
      set (openWindows c) \<subseteq> set_option (prefsWindow c) \<and>
      (\<forall>w \<in> set_option (prefsWindow c). w < windowsCreated c))"

text \<open>
  A persisted document is well formed when its entries carry the fields \<^verbatim>\<open>instanceId\<close>,
  \<^verbatim>\<open>widgetId\<close>, \<^verbatim>\<open>monitorIndex\<close>, \<^verbatim>\<open>normX\<close>, \<^verbatim>\<open>normY\<close>, \<^verbatim>\<open>width\<close>, \<^verbatim>\<open>height\<close>,
  \<^verbatim>\<open>config\<close> and \<^verbatim>\<open>hasPreferences\<close> (\<^verbatim>\<open>prefsUri\<close> may be null), with an id and a widget
  id that are not empty, and no two entries share an id.  \<open>with_kind\<close> fills in the kind
  the loader assumes for an entry without one.
\<close>

definition wf_entry :: "state_entry \<Rightarrow> bool" where
  "wf_entry e =
     (truthy_string (s_instanceId e) \<and> truthy_string (s_widgetId e) \<and>
      s_monitorIndex e \<noteq> None \<and>
      s_normX e \<noteq> None \<and> s_normY e \<noteq> None \<and> s_width e \<noteq> None \<and> s_height e \<noteq> None \<and>
      s_config e \<noteq> None \<and> s_config e \<noteq> Some JNull \<and> s_hasPreferences e \<noteq> None)"

definition with_kind :: "state_entry \<Rightarrow> state_entry" where
  "with_kind e = e\<lparr> s_kind := Some (the_default ''html'' (s_kind e)) \<rparr>"

definition wf_entries :: "state_entry list \<Rightarrow> bool" where
  "wf_entries es = (list_all wf_entry es \<and> distinct (map s_instanceId es))"

text \<open>An example manager with one live HTML instance whose surface is ready.\<close>

definition example_instance :: widget_instance where
  "example_instance =
     \<lparr> instanceId = ''abc'', widgetId = ''clock'', monitorIndex = 0, kind = ''html'',
       normX = 1 / 2, normY = 1 / 2, width = 200, height = 150,
       config = JObj [(''color'', JStr ''blue'')], prefsUri = Some ''prefs.html'',
       hasPreferences = Some True, actor = Some True, host = Some example_ready_host,
       isAddButton = False \<rparr>"

definition example_env :: ui_env where
  "example_env =
     \<lparr> darkmode = False, globalAnimations = True, localeName = ''en_US'',
       cspProfile = ProfileStrict, strictProfileValue = None,
       containerOnTop = (\<lambda>_. True),
       actorRtl = (\<lambda>_. False), childIndex = (\<lambda>_. None) \<rparr>"

definition example_live_manager :: manager where
  "example_live_manager =
     \<lparr> instances = [(''abc'', example_instance)], selectedInstanceId = Some ''abc'',
       suppressStateEvents = False, surfaces = [0], showDesktopWidgets = True,
       widgetState = None, webWidgetContext = Some example_context \<rparr>"

definition example_entry :: "string \<Rightarrow> string \<Rightarrow> rat \<Rightarrow> state_entry" where
  "example_entry i wid x =
     \<lparr> s_instanceId = Some i, s_widgetId = Some wid, s_monitorIndex = Some 0,
       s_kind = Some ''html'', s_normX = Some x, s_normY = Some (1 / 4),
       s_width = Some 260, s_height = Some 160,
       s_config = Some (JObj [(''color'', JStr ''red'')]), s_prefsUri = None,
       s_hasPreferences = Some False \<rparr>"

definition example_state :: state_doc where
  "example_state =
     \<lparr> s_version = Some 1,
       s_instances = Some [example_entry ''abc'' ''clock'' (1 / 3),
                           example_entry ''def'' ''notes'' (2 / 3)] \<rparr>"

definition example_payload :: payload where
  "example_payload =
     \<lparr> p_instanceId = ''abc'', p_type = ''updateConfig'',
       p_config = Some (JObj [(''color'', JStr ''red'')]), p_requestId = None,
       p_mode = Some (JStr ''widget'') \<rparr>"

text \<open>
  An example context whose preferences window, number 0, is open for the instance
  \<^verbatim>\<open>abc\<close>, and a manager in which a second instance \<^verbatim>\<open>def\<close> is the selected one.
\<close>

definition example_prefs_context :: web_context where
  "example_prefs_context =
     example_context\<lparr> prefsWindow := Some 0, prefsHost := Some example_ready_host,
                      prefsInstanceId := Some ''abc'', openWindows := [0],
                      windowsCreated := 1, presented := [0] \<rparr>"

text \<open>
  A manager with a second instance \<^verbatim>\<open>ghi\<close> whose host was just made: it has no web view
  yet.
\<close>

definition example_pending_manager :: manager where
  "example_pending_manager =
     example_live_manager
       \<lparr> instances :=
           [(''abc'', example_instance),
            (''ghi'', example_instance
                       \<lparr> instanceId := ''ghi'', widgetId := ''notes'',
                         host := Some (new_host ''ghi'' ''notes'' WidgetMode None) \<rparr>)] \<rparr>"

text \<open>
  The context right after the preferences window of \<^verbatim>\<open>abc\<close> was opened from
  \<open>example_context\<close>: the host of the window has no web view yet.
\<close>

definition example_pending_prefs_context :: web_context where
  "example_pending_prefs_context =
     example_context\<lparr> prefsWindow := Some 0,
                      prefsHost := Some (new_host ''abc'' ''clock'' PrefsMode (Some ''prefs.html'')),
                      prefsInstanceId := Some ''abc'', openWindows := [0],
                      windowsCreated := 1, presented := [0] \<rparr>"

definition example_manager_two :: manager where
  "example_manager_two =
     example_live_manager
       \<lparr> instances := [(''abc'', example_instance),
                       (''def'', example_instance\<lparr> instanceId := ''def'', widgetId := ''notes'' \<rparr>)],
         selectedInstanceId := Some ''def'' \<rparr>"

text \<open>
  The part of the instance map the persisted document is made from: for every key, in map
  order, whether the instance is an add button, and the entry an export writes for it.
\<close>

definition persisted_view :: "manager \<Rightarrow> (string \<times> bool \<times> state_entry) list" where
  "persisted_view m = map (\<lambda>(k, x). (k, isAddButton x, export_entry x)) (instances m)"

text \<open>The condition under which the first loop of \<open>loadState\<close> takes an entry.\<close>

definition entry_taken :: "state_entry \<Rightarrow> bool" where
  "entry_taken e = (truthy_string (s_instanceId e) \<and> truthy_string (s_widgetId e))"

text \<open>
  What loading one entry does to that view: the entry of an id already in the map is
  replaced (the instance keeps its own id field and its add-button mark), the entry of a new
  id is appended.
\<close>

definition view_put ::
  "string \<Rightarrow> state_entry \<Rightarrow> (string \<times> bool \<times> state_entry) list \<Rightarrow>
   (string \<times> bool \<times> state_entry) list" where
  "view_put i v D =
     (if i \<in> fst ` set D
      then map (\<lambda>(k, b, w). if k = i then (k, b, v\<lparr> s_instanceId := s_instanceId w \<rparr>)
                             else (k, b, w)) D
      else D @ [(i, False, v)])"

definition view_load ::
  "state_entry \<Rightarrow> (string \<times> bool \<times> state_entry) list \<Rightarrow> (string \<times> bool \<times> state_entry) list" where
  "view_load e D =
     (if entry_taken e then view_put (the_default [] (s_instanceId e)) (export_entry (load_new e)) D
      else D)"

text \<open>What one round of the second loop does to the view.\<close>

definition view_remove ::
  "string list \<Rightarrow> string \<Rightarrow> (string \<times> bool \<times> state_entry) list \<Rightarrow>
   (string \<times> bool \<times> state_entry) list" where
  "view_remove seen i D =
     (if (case map_of D i of Some (b, w) \<Rightarrow> b | None \<Rightarrow> False) \<or> i \<in> set seen then D
      else filter (\<lambda>kv. fst kv \<noteq> i) D)"

text \<open>In a manager every instance is stored under its own id, and a key occurs once.\<close>

definition manager_wf :: "manager \<Rightarrow> bool" where
  "manager_wf m =
     (distinct (map fst (instances m)) \<and>
      (\<forall>(k, x) \<in> set (instances m). instanceId x = k))"

text \<open>Every entry of a view carries the key it is stored under.\<close>

definition keyed :: "(string \<times> bool \<times> state_entry) list \<Rightarrow> bool" where
  "keyed D = (\<forall>(k, b, w) \<in> set D. s_instanceId w = Some k)"

text \<open>
  What \<^verbatim>\<open>destroy\<close> needs of a host to return: its frame and its surface.  A reference
  that holds no host is not destroyed at all.
\<close>

definition can_destroy :: "host option \<Rightarrow> bool" where
  "can_destroy ho = (case ho of None \<Rightarrow> True | Some h \<Rightarrow> frame h \<and> webView h \<noteq> None)"

text \<open>
  The host of the preferences window, if the manager has a context, can be destroyed; if it
  has none, the constructor of the context returns.
\<close>

definition context_ready :: "ui_env \<Rightarrow> manager \<Rightarrow> bool" where
  "context_ready env m =
     (case webWidgetContext m of
        None \<Rightarrow> new_context env \<noteq> None
      | Some c \<Rightarrow> can_destroy (prefsHost c))"

text \<open>
  Every instance that is neither an add button nor named in \<open>seen\<close> has a host that can
  be destroyed.
\<close>

definition removable :: "string list \<Rightarrow> manager \<Rightarrow> bool" where
  "removable seen m =
     (\<forall>(k, x) \<in> set (instances m). isAddButton x \<or> k \<in> set seen \<or> can_destroy (host x))"

section \<open>Verification\<close>

subsection \<open>Widget registry\<close>

lemma map_of_map_set: "map_of (map_set k v kvs) = (map_of kvs)(k \<mapsto> v)"
  by (induction kvs) (auto simp: fun_eq_iff)

lemma keys_map_set_new: "k \<notin> fst ` set kvs \<Longrightarrow> map fst (map_set k v kvs) = map fst kvs @ [k]"
  by (induction kvs) auto

lemma keys_map_set_old: "k \<in> fst ` set kvs \<Longrightarrow> map fst (map_set k v kvs) = map fst kvs"
  by (induction kvs) force+

lemma count_pos_iff: "0 < count_list xs x \<longleftrightarrow> x \<in> set xs"
  by (induction xs) auto

lemma logDup_fields:
  "outMap (logDuplicateIds i ex rp wd u st) = outMap st"
  "loggedDuplicateIds (logDuplicateIds i ex rp wd u st) =
     (if i \<in> set (loggedDuplicateIds st) then loggedDuplicateIds st else loggedDuplicateIds st @ [i])"
  "filter (is_duplicate_warning j) (warnings (logDuplicateIds i ex rp wd u st)) =
     filter (is_duplicate_warning j) (warnings st) @
       (if i \<in> set (loggedDuplicateIds st) \<or> j \<noteq> i then [] else [DuplicateId i (d_dir ex) (d_isUser ex) wd u rp])"
  by (auto simp: logDuplicateIds_def)


lemma d_id_make: "d_id (make_descriptor r u n m) = idRaw m"
  by (simp add: make_descriptor_def)

lemma d_isUser_make: "d_isUser (make_descriptor r u n m) = u"
  by (simp add: make_descriptor_def)

lemma scanEntry_skip: "\<not> accepted e \<Longrightarrow> outMap (scanEntry r u e st) = outMap st \<and>
   loggedDuplicateIds (scanEntry r u e st) = loggedDuplicateIds st \<and>
   filter (is_duplicate_warning i) (warnings (scanEntry r u e st)) = filter (is_duplicate_warning i) (warnings st)"
  by (auto simp: accepted_def scanEntry_def split: manifest_probe.splits)

lemma scanEntry_new:
  assumes "accepted e" "map_of (outMap st) (entry_id e) = None"
  shows "scanEntry r u e st = st\<lparr> outMap := map_set (entry_id e) (make_descriptor r u (de_name e) (case de_manifest e of ManifestRead m \<Rightarrow> m)) (outMap st) \<rparr>"
  using assms by (auto simp: accepted_def scanEntry_def entry_id_def Let_def d_id_make split: manifest_probe.splits)

lemma scanEntry_dup:
  assumes "accepted e" "map_of (outMap st) (entry_id e) = Some ex"
  shows "scanEntry r u e st =
     (let desc = make_descriptor r u (de_name e) (case de_manifest e of ManifestRead m \<Rightarrow> m);
          st' = logDuplicateIds (entry_id e) ex (u \<and> \<not> d_isUser ex) (d_dir desc) u st
      in if u \<and> \<not> d_isUser ex then st'\<lparr> outMap := map_set (entry_id e) desc (outMap st') \<rparr> else st')"
  using assms by (auto simp: accepted_def scanEntry_def entry_id_def Let_def d_id_make split: manifest_probe.splits)

lemma scan_invI:
  assumes "distinct (map fst (outMap st))" "fst ` set (outMap st) = fst ` set seen"
    "\<And>k d. map_of (outMap st) k = Some d \<Longrightarrow> d_id d = k \<and> (d_isUser d \<longleftrightarrow> (k, True) \<in> set seen)"
    "distinct (loggedDuplicateIds st)"
    "set (loggedDuplicateIds st) = {i. 2 \<le> count_list (map fst seen) i}"
    "\<And>i. length (filter (is_duplicate_warning i) (warnings st)) =
         (if i \<in> set (loggedDuplicateIds st) then 1 else 0)"
  shows "scan_inv st seen"
  using assms unfolding scan_inv_def by blast


lemma fst_set_map_set: "fst ` set (map_set k v kvs) = insert k (fst ` set kvs)"
  by (simp add: dom_map_of_conv_image_fst[symmetric] map_of_map_set)

lemma count_list_snoc: "count_list (xs @ [y]) x = count_list xs x + (if x = y then 1 else 0)"
  by (induction xs) auto

lemma inv_new:
  assumes inv: "scan_inv st seen" and notin: "i \<notin> fst ` set (outMap st)"
    and idd: "d_id d = i" and ud: "d_isUser d = u"
  shows "scan_inv (st\<lparr> outMap := map_set i d (outMap st) \<rparr>) (seen @ [(i, u)])"
proof -
  from inv have D: "distinct (map fst (outMap st))"
    and K: "fst ` set (outMap st) = fst ` set seen"
    and U: "\<And>k d. map_of (outMap st) k = Some d \<Longrightarrow> d_id d = k \<and> (d_isUser d \<longleftrightarrow> (k, True) \<in> set seen)"
    and DL: "distinct (loggedDuplicateIds st)"
    and L: "set (loggedDuplicateIds st) = {i. 2 \<le> count_list (map fst seen) i}"
    and W: "\<And>i. length (filter (is_duplicate_warning i) (warnings st)) =
         (if i \<in> set (loggedDuplicateIds st) then 1 else 0)"
    unfolding scan_inv_def by blast+
  have c0: "count_list (map fst seen) i = 0"
    using K notin count_pos_iff[of "map fst seen" i] by auto
  have notseen: "\<And>b. (i, b) \<notin> set seen" using notin K by force
  let ?st = "st\<lparr> outMap := map_set i d (outMap st) \<rparr>"
  show ?thesis
  proof (rule scan_invI)
    show "distinct (map fst (outMap ?st))" using D notin by (simp add: keys_map_set_new)
    show "fst ` set (outMap ?st) = fst ` set (seen @ [(i, u)])"
      using K by (simp add: fst_set_map_set)
    show "\<And>k d'. map_of (outMap ?st) k = Some d' \<Longrightarrow> d_id d' = k \<and> (d_isUser d' \<longleftrightarrow> (k, True) \<in> set (seen @ [(i, u)]))"
      using U notseen idd ud by (auto simp: map_of_map_set split: if_splits)
    show "distinct (loggedDuplicateIds ?st)" using DL by simp
    show "set (loggedDuplicateIds ?st) = {j. 2 \<le> count_list (map fst (seen @ [(i, u)])) j}"
      using L c0 by (auto simp: count_list_snoc)
    show "\<And>i. length (filter (is_duplicate_warning i) (warnings ?st)) =
       (if i \<in> set (loggedDuplicateIds ?st) then 1 else 0)" using W by simp
  qed
qed


lemma inv_dup:
  assumes inv: "scan_inv st seen" and ex: "map_of (outMap st) i = Some ex"
    and idd: "d_id d = i" and ud: "d_isUser d = u"
  shows "scan_inv
     (let st' = logDuplicateIds i ex (u \<and> \<not> d_isUser ex) wd u st
      in if u \<and> \<not> d_isUser ex then st'\<lparr> outMap := map_set i d (outMap st') \<rparr> else st')
     (seen @ [(i, u)])"
proof -
  from inv have D: "distinct (map fst (outMap st))"
    and K: "fst ` set (outMap st) = fst ` set seen"
    and U: "\<And>k d. map_of (outMap st) k = Some d \<Longrightarrow> d_id d = k \<and> (d_isUser d \<longleftrightarrow> (k, True) \<in> set seen)"
    and DL: "distinct (loggedDuplicateIds st)"
    and L: "set (loggedDuplicateIds st) = {i. 2 \<le> count_list (map fst seen) i}"
    and W: "\<And>i. length (filter (is_duplicate_warning i) (warnings st)) =
         (if i \<in> set (loggedDuplicateIds st) then 1 else 0)"
    unfolding scan_inv_def by blast+
  have isin: "i \<in> fst ` set (outMap st)" using ex by (metis domI dom_map_of_conv_image_fst)
  then have c1: "1 \<le> count_list (map fst seen) i"
    using K count_pos_iff[of "map fst seen" i] by auto
  have exu: "d_isUser ex \<longleftrightarrow> (i, True) \<in> set seen" using U ex by auto
  let ?rp = "u \<and> \<not> d_isUser ex"
  let ?st1 = "logDuplicateIds i ex ?rp wd u st"
  let ?st = "if ?rp then ?st1\<lparr> outMap := map_set i d (outMap ?st1) \<rparr> else ?st1"
  have om: "outMap ?st = (if ?rp then map_set i d (outMap st) else outMap st)"
    by (simp add: logDup_fields)
  have lg: "loggedDuplicateIds ?st = loggedDuplicateIds ?st1" by simp
  have wn: "warnings ?st = warnings ?st1" by simp
  have "scan_inv ?st (seen @ [(i, u)])"
  proof (rule scan_invI)
    show "distinct (map fst (outMap ?st))" using D isin unfolding om by (simp add: keys_map_set_old)
    show "fst ` set (outMap ?st) = fst ` set (seen @ [(i, u)])"
      using K isin unfolding om by (auto simp: fst_set_map_set)
    show "\<And>k d'. map_of (outMap ?st) k = Some d' \<Longrightarrow> d_id d' = k \<and> (d_isUser d' \<longleftrightarrow> (k, True) \<in> set (seen @ [(i, u)]))"
      using U exu idd ud ex unfolding om by (auto simp: map_of_map_set split: if_splits)
    show "distinct (loggedDuplicateIds ?st)" using DL unfolding lg by (simp add: logDup_fields)
    show "set (loggedDuplicateIds ?st) = {j. 2 \<le> count_list (map fst (seen @ [(i, u)])) j}"
      using L c1 unfolding lg by (auto simp: logDup_fields count_list_snoc)
    show "\<And>j. length (filter (is_duplicate_warning j) (warnings ?st)) =
       (if j \<in> set (loggedDuplicateIds ?st) then 1 else 0)"
      using W unfolding lg wn by (auto simp: logDup_fields)
  qed
  then show ?thesis by (simp only: Let_def)
qed

lemma scan_inv_step:
  assumes inv: "scan_inv st seen"
  shows "scan_inv (scanEntry r u e st) (seen @ seen_entry u e)"
proof (cases "accepted e")
  case False
  then show ?thesis using assms scanEntry_skip[OF False, of r u st]
    by (simp add: scan_inv_def seen_entry_def)
next
  case True
  let ?i = "entry_id e"
  let ?d = "make_descriptor r u (de_name e) (case de_manifest e of ManifestRead m \<Rightarrow> m)"
  have se: "seen_entry u e = [(?i, u)]" using True by (simp add: seen_entry_def)
  have idd: "d_id ?d = ?i" using True
    by (auto simp: accepted_def entry_id_def d_id_make split: manifest_probe.splits)
  show ?thesis
  proof (cases "map_of (outMap st) ?i")
    case None
    then have notin: "?i \<notin> fst ` set (outMap st)" by (simp add: map_of_eq_None_iff)
    show ?thesis unfolding scanEntry_new[OF True None] se
      by (rule inv_new[OF inv notin idd d_isUser_make])
  next
    case (Some ex)
    show ?thesis unfolding scanEntry_dup[OF True Some] se
      using inv_dup[OF inv Some idd d_isUser_make] by (simp only: Let_def)
  qed
qed

lemma scan_inv_entries:
  "scan_inv st seen \<Longrightarrow> scan_inv (fold (scanEntry r u) es st) (seen @ concat (map (seen_entry u) es))"
proof (induction es arbitrary: st seen)
  case Nil then show ?case by simp
next
  case (Cons e es)
  from Cons.IH[OF scan_inv_step[OF Cons.prems, of r u e]] show ?case by simp
qed

lemma scan_inv_root: "scan_inv st seen \<Longrightarrow> scan_inv (scanRootAsync r st) (seen @ seen_root r)"
  by (auto simp: scanRootAsync_def seen_root_def scan_inv_entries split: option.splits)

lemma scan_inv_roots:
  "scan_inv st seen \<Longrightarrow> scan_inv (fold scanRootAsync rs st) (seen @ concat (map seen_root rs))"
proof (induction rs arbitrary: st seen)
  case Nil then show ?case by simp
next
  case (Cons r rs)
  from Cons.IH[OF scan_inv_root[OF Cons.prems, of r]] show ?case by simp
qed

lemma scan_inv_scanRoots: "scan_inv (scanRoots rs) (scanned rs)"
  using scan_inv_roots[of "\<lparr> outMap = [], loggedDuplicateIds = [], warnings = [] \<rparr>" "[]" rs]
  by (simp add: scanRoots_def scanned_def scan_inv_def)


lemma accepted_id_nonempty: "accepted e \<Longrightarrow> entry_id e \<noteq> []"
  by (cases "de_manifest e") (auto simp: accepted_def entry_id_def idOk_def)

lemma scanned_ids_nonempty: "(i, u) \<in> set (scanned rs) \<Longrightarrow> i \<noteq> []"
  using accepted_id_nonempty
  by (auto simp: scanned_def seen_root_def seen_entry_def split: option.splits if_splits)

lemma listWidgets_ids:
  assumes "scan_inv st seen"
  shows "map d_id (listWidgets st) = map fst (outMap st)"
proof -
  have "\<And>k d. (k, d) \<in> set (outMap st) \<Longrightarrow> d_id d = k"
    using assms unfolding scan_inv_def by (metis map_of_is_SomeI)
  then show ?thesis unfolding listWidgets_def by (induction "outMap st") auto
qed

lemma find_snoc:
  "find P (xs @ [x]) = (case find P xs of Some y \<Rightarrow> Some y | None \<Rightarrow> if P x then Some x else None)"
  by (induction xs) auto

lemma kept_other: "d_id d \<noteq> k \<Longrightarrow> kept (ds @ [d]) k = kept ds k"
  by (simp add: kept_def find_snoc split: option.splits)

lemma kept_first:
  assumes "kept ds (d_id d) = None"
  shows "kept (ds @ [d]) (d_id d) = Some d"
proof -
  have a: "find (\<lambda>x. d_id x = d_id d \<and> d_isUser x) ds = None"
    using assms by (simp add: kept_def split: option.splits)
  then have b: "find (\<lambda>x. d_id x = d_id d) ds = None"
    using assms by (simp add: kept_def)
  show ?thesis by (simp add: kept_def find_snoc a b)
qed

lemma kept_dup:
  assumes "kept ds (d_id d) = Some ex"
  shows "kept (ds @ [d]) (d_id d) = (if d_isUser d \<and> \<not> d_isUser ex then Some d else Some ex)"
proof (cases "find (\<lambda>x. d_id x = d_id d \<and> d_isUser x) ds")
  case (Some x)
  then have "ex = x" using assms by (simp add: kept_def)
  moreover have "d_isUser x" using Some by (auto simp: find_Some_iff)
  ultimately show ?thesis using Some by (simp add: kept_def find_snoc)
next
  case None
  then have f: "find (\<lambda>x. d_id x = d_id d) ds = Some ex" using assms by (simp add: kept_def)
  then have "d_id ex = d_id d" "ex \<in> set ds" by (auto simp: find_Some_iff)
  then have "\<not> d_isUser ex" using None by (auto simp: find_None_iff)
  then show ?thesis using None f by (simp add: kept_def find_snoc)
qed

lemma kept_inv_step:
  assumes inv: "\<And>k. map_of (outMap st) k = kept ds k"
  shows "map_of (outMap (scanEntry r u e st)) k = kept (ds @ found_entry r u e) k"
proof (cases "accepted e")
  case False
  then show ?thesis using inv scanEntry_skip[OF False, of r u st] by (simp add: found_entry_def)
next
  case True
  define d where "d = make_descriptor r u (de_name e) (manifest_of e)"
  have m: "(case de_manifest e of ManifestRead m \<Rightarrow> m) = manifest_of e" using True
    by (auto simp: accepted_def manifest_of_def split: manifest_probe.splits)
  have i: "entry_id e = d_id d" using True unfolding d_def
    by (auto simp: accepted_def entry_id_def manifest_of_def d_id_make split: manifest_probe.splits)
  have u: "d_isUser d = u" unfolding d_def by (rule d_isUser_make)
  have fe: "found_entry r u e = [d]" using True by (simp add: found_entry_def d_def)
  show ?thesis
  proof (cases "map_of (outMap st) (d_id d)")
    case None
    then have n: "map_of (outMap st) (entry_id e) = None" using i by simp
    have k0: "kept ds (d_id d) = None" using None inv by simp
    have s: "scanEntry r u e st = st\<lparr> outMap := map_set (d_id d) d (outMap st) \<rparr>"
      unfolding scanEntry_new[OF True n] m i d_def ..
    show ?thesis unfolding s fe
      using inv kept_first[OF k0] kept_other[of d k ds]
      by (cases "k = d_id d") (simp_all add: map_of_map_set)
  next
    case (Some ex)
    then have n: "map_of (outMap st) (entry_id e) = Some ex" using i by simp
    have k1: "kept ds (d_id d) = Some ex" using Some inv by simp
    have s: "outMap (scanEntry r u e st) =
               (if u \<and> \<not> d_isUser ex then map_set (d_id d) d (outMap st) else outMap st)"
      unfolding scanEntry_dup[OF True n] m i d_def by (simp add: Let_def logDup_fields)
    show ?thesis
    proof (cases "k = d_id d")
      case True
      then show ?thesis unfolding s fe using kept_dup[OF k1] Some u
        by (simp add: map_of_map_set)
    next
      case False
      then show ?thesis unfolding s fe using inv kept_other[of d k ds]
        by (simp add: map_of_map_set)
    qed
  qed
qed

lemma kept_inv_entries:
  "(\<And>k. map_of (outMap st) k = kept ds k) \<Longrightarrow>
   map_of (outMap (fold (scanEntry r u) es st)) k = kept (ds @ concat (map (found_entry r u) es)) k"
proof (induction es arbitrary: st ds k)
  case Nil then show ?case by simp
next
  case (Cons e es)
  have "map_of (outMap (fold (scanEntry r u) es (scanEntry r u e st))) k
        = kept ((ds @ found_entry r u e) @ concat (map (found_entry r u) es)) k"
    by (rule Cons.IH) (rule kept_inv_step[OF Cons.prems])
  then show ?case by simp
qed

lemma kept_inv_root:
  "(\<And>k. map_of (outMap st) k = kept ds k) \<Longrightarrow>
   map_of (outMap (scanRootAsync r st)) k = kept (ds @ found_root r) k"
  by (cases "sr_children r") (simp_all add: scanRootAsync_def found_root_def kept_inv_entries)

lemma kept_inv_roots:
  "(\<And>k. map_of (outMap st) k = kept ds k) \<Longrightarrow>
   map_of (outMap (fold scanRootAsync rs st)) k = kept (ds @ concat (map found_root rs)) k"
proof (induction rs arbitrary: st ds k)
  case Nil then show ?case by simp
next
  case (Cons r rs)
  have "map_of (outMap (fold scanRootAsync rs (scanRootAsync r st))) k
        = kept ((ds @ found_root r) @ concat (map found_root rs)) k"
    by (rule Cons.IH) (rule kept_inv_root[OF Cons.prems])
  then show ?case by simp
qed

lemma kept_scanRoots: "map_of (outMap (scanRoots rs)) k = kept (found rs) k"
  using kept_inv_roots[of "\<lparr> outMap = [], loggedDuplicateIds = [], warnings = [] \<rparr>" "[]" rs k]
  by (simp add: scanRoots_def found_def kept_def)

lemma scanned_found: "scanned rs = map (\<lambda>d. (d_id d, d_isUser d)) (found rs)"
proof -
  have e: "seen_entry u e = map (\<lambda>d. (d_id d, d_isUser d)) (found_entry r u e)" for u e r
    by (auto simp: seen_entry_def found_entry_def d_id_make d_isUser_make entry_id_def
        manifest_of_def accepted_def split: manifest_probe.splits)
  have r: "seen_root r = map (\<lambda>d. (d_id d, d_isUser d)) (found_root r)" for r
    by (cases "sr_children r")
       (simp_all add: seen_root_def found_root_def map_concat o_def e[symmetric])
  show ?thesis by (simp add: scanned_def found_def map_concat o_def r[symmetric])
qed

lemma kept_empty_id: "kept (found rs) [] = None"
proof -
  have "\<forall>d \<in> set (found rs). d_id d \<noteq> []"
    using scanned_ids_nonempty[of _ _ rs] unfolding scanned_found by force
  then show ?thesis by (auto simp: kept_def find_None_iff split: option.splits)
qed

lemma getDescriptor_kept: "getDescriptor (scanRoots rs) i = kept (found rs) i"
  by (simp add: getDescriptor_def kept_scanRoots kept_empty_id)

text \<open>
  C3.  After a load, \<open>listWidgets\<close> holds exactly one descriptor for every valid id that
  was scanned, and \<open>getDescriptor\<close> finds it.  The descriptor kept for an id is the one
  built from the first user-scoped bundle with that id, wherever in the discovery order that
  bundle came, and the one of the first bundle with that id when no user-scoped bundle has
  it.  An id that was scanned more than once has exactly one duplicate warning in the log,
  an id scanned once has none.
\<close>

theorem registry_one_descriptor_per_id:
  "distinct (map d_id (listWidgets (scanRoots rs))) \<and>
   set (map d_id (listWidgets (scanRoots rs))) = d_id ` set (found rs) \<and>
   (\<forall>d \<in> set (listWidgets (scanRoots rs)). getDescriptor (scanRoots rs) (d_id d) = Some d) \<and>
   (\<forall>i. getDescriptor (scanRoots rs) i = kept (found rs) i) \<and>
   (\<forall>i. length (filter (is_duplicate_warning i) (warnings (scanRoots rs))) =
        (if 2 \<le> count_list (map d_id (found rs)) i then 1 else 0))"
proof -
  let ?st = "scanRoots rs"
  have inv: "scan_inv ?st (scanned rs)" by (rule scan_inv_scanRoots)
  then have D: "distinct (map fst (outMap ?st))"
    and K: "fst ` set (outMap ?st) = fst ` set (scanned rs)"
    and U: "\<And>k d. map_of (outMap ?st) k = Some d \<Longrightarrow>
              d_id d = k \<and> (d_isUser d \<longleftrightarrow> (k, True) \<in> set (scanned rs))"
    and L: "set (loggedDuplicateIds ?st) = {i. 2 \<le> count_list (map fst (scanned rs)) i}"
    and W: "\<And>i. length (filter (is_duplicate_warning i) (warnings ?st)) =
         (if i \<in> set (loggedDuplicateIds ?st) then 1 else 0)"
    unfolding scan_inv_def by blast+
  have ids: "map d_id (listWidgets ?st) = map fst (outMap ?st)"
    by (rule listWidgets_ids[OF inv])
  have f1: "fst ` set (scanned rs) = d_id ` set (found rs)"
    unfolding scanned_found by force
  have f2: "map fst (scanned rs) = map d_id (found rs)"
    unfolding scanned_found by (simp add: o_def)
  have c1: "distinct (map d_id (listWidgets ?st))" using D ids by simp
  have c2: "set (map d_id (listWidgets ?st)) = d_id ` set (found rs)" using K ids f1 by simp
  have c3: "\<forall>d \<in> set (listWidgets ?st). getDescriptor ?st (d_id d) = Some d"
  proof
    fix d assume "d \<in> set (listWidgets ?st)"
    then obtain k where kd: "(k, d) \<in> set (outMap ?st)" by (auto simp: listWidgets_def)
    then have m: "map_of (outMap ?st) k = Some d" using D by simp
    then have "d_id d = k" using U by blast
    moreover have "k \<noteq> []" using kd K scanned_ids_nonempty[of k _ rs]
      by (metis (no_types, opaque_lifting) fst_conv image_iff prod.collapse)
    ultimately show "getDescriptor ?st (d_id d) = Some d" using m by (simp add: getDescriptor_def)
  qed
  have c4: "\<forall>i. getDescriptor ?st i = kept (found rs) i"
    by (simp add: getDescriptor_kept)
  have c5: "\<forall>i. length (filter (is_duplicate_warning i) (warnings ?st)) =
        (if 2 \<le> count_list (map d_id (found rs)) i then 1 else 0)"
    using W L f2 by simp
  from c1 c2 c3 c4 c5 show ?thesis by blast
qed

theorem registry_one_descriptor_per_id_witness:
  "getDescriptor (scanRoots example_roots) ''clock'' =
     Some (make_descriptor (LocalFile [''home'', ''u'', ''ding'', ''widgets'']) True ''my-clock''
             (example_manifest (CHR 0xC2 # CHR 0xA0 # ''clock '') ''2'')) \<and>
   map d_id (listWidgets (scanRoots example_roots)) = [''clock'', ''notes''] \<and>
   length (filter (is_duplicate_warning ''clock'') (warnings (scanRoots example_roots))) = 1"
proof -
  have k: "kept (found example_roots) ''clock'' =
     Some (make_descriptor (LocalFile [''home'', ''u'', ''ding'', ''widgets'']) True ''my-clock''
             (example_manifest (CHR 0xC2 # CHR 0xA0 # ''clock '') ''2''))" by code_simp
  have c: "2 \<le> count_list (map d_id (found example_roots)) ''clock''" by code_simp
  have l: "map d_id (listWidgets (scanRoots example_roots)) = [''clock'', ''notes'']" by code_simp
  note t = registry_one_descriptor_per_id[of example_roots]
  from t have "getDescriptor (scanRoots example_roots) ''clock'' = kept (found example_roots) ''clock''"
    by blast
  moreover from t c
  have "length (filter (is_duplicate_warning ''clock'') (warnings (scanRoots example_roots))) = 1"
    by simp
  ultimately show ?thesis using k l by simp
qed

subsection \<open>HTML widget host\<close>

lemma evaluateScript_ready:
  "webView h \<noteq> None \<Longrightarrow> \<not> destroyed h \<Longrightarrow>
   evaluateScript s h = h\<lparr> evaluated := evaluated h @ [s] \<rparr>"
  by (simp add: evaluateScript_def)

lemma fold_evaluate_ready:
  "webView h \<noteq> None \<Longrightarrow> \<not> destroyed h \<Longrightarrow>
   fold (\<lambda>x. evaluateScript (f x)) xs h = h\<lparr> evaluated := evaluated h @ map f xs \<rparr>"
proof (induction xs arbitrary: h)
  case Nil then show ?case by simp
next
  case (Cons x xs)
  have "fold (\<lambda>x. evaluateScript (f x)) xs (h\<lparr> evaluated := evaluated h @ [f x] \<rparr>)
        = (h\<lparr> evaluated := evaluated h @ [f x] \<rparr>)\<lparr> evaluated := (evaluated h @ [f x]) @ map f xs \<rparr>"
    using Cons.IH[of "h\<lparr> evaluated := evaluated h @ [f x] \<rparr>"] Cons.prems by simp
  then show ?case using Cons.prems by (simp add: evaluateScript_ready)
qed

lemma flushPatches_ready:
  "webView h \<noteq> None \<Longrightarrow> \<not> destroyed h \<Longrightarrow>
   flushPendingHostStatePatches h =
     h\<lparr> evaluated := evaluated h @ map SetHostStateScript (pendingHostStatePatches h),
        pendingHostStatePatches := [] \<rparr>"
  using fold_evaluate_ready[of h SetHostStateScript "pendingHostStatePatches h"]
  by (simp add: flushPendingHostStatePatches_def sendHostStatePatch_def[abs_def])

lemma flushMessages_ready:
  "webView h \<noteq> None \<Longrightarrow> \<not> destroyed h \<Longrightarrow>
   flushPendingMessages h =
     h\<lparr> evaluated := evaluated h @ map PostMessageScript (pendingPostMessages h),
        pendingPostMessages := [] \<rparr>"
  using fold_evaluate_ready[of h PostMessageScript "pendingPostMessages h"]
  by (simp add: flushPendingMessages_def postMessage_script_def[abs_def])

lemma calls_before_ready:
  "webView h = None \<Longrightarrow>
   fold call cs h =
     h\<lparr> pendingHostStatePatches := pendingHostStatePatches h @ concat (map patch_of cs),
        pendingPostMessages := pendingPostMessages h @ concat (map message_of cs) \<rparr>"
proof (induction cs arbitrary: h)
  case Nil then show ?case by simp
next
  case (Cons c cs)
  have w: "webView (call c h) = None" using Cons.prems
    by (cases c) (simp_all add: setHostStatePatch_def postMessage_def)
  show ?case using Cons.prems unfolding fold_simps Cons.IH[OF w]
    by (cases c) (simp_all add: setHostStatePatch_def postMessage_def)
qed

lemma calls_after_ready:
  "webView h \<noteq> None \<Longrightarrow> \<not> destroyed h \<Longrightarrow>
   fold call cs h = h\<lparr> evaluated := evaluated h @ concat (map script_of cs) \<rparr>"
proof (induction cs arbitrary: h)
  case Nil then show ?case by simp
next
  case (Cons c cs)
  have st: "call c h = h\<lparr> evaluated := evaluated h @ script_of c \<rparr>" using Cons.prems
    by (cases c) (simp_all add: setHostStatePatch_def postMessage_def sendHostStatePatch_def
        postMessage_script_def evaluateScript_def)
  show ?case unfolding fold_simps st using Cons.IH[of "h\<lparr> evaluated := evaluated h @ script_of c \<rparr>"] Cons.prems
    by simp
qed

lemma makeWebView_fresh:
  assumes "frame h"
  shows "makeWebView wv h = Returned () (h\<lparr> webView := Some wv \<rparr>)"
  using assms by (simp add: makeWebView_def Let_def)

lemma start_continue_ready:
  assumes "webView h \<noteq> None" "\<not> destroyed h"
  shows "evaluated (start_continue url h) =
           evaluated h @ map SetHostStateScript (pendingHostStatePatches h)
                       @ map PostMessageScript (pendingPostMessages h)"
    and "pendingHostStatePatches (start_continue url h) = []"
    and "pendingPostMessages (start_continue url h) = []"
    and "webView (start_continue url h) \<noteq> None"
    and "\<not> destroyed (start_continue url h)"
  using assms
  by (auto simp: start_continue_def Let_def flushPatches_ready flushMessages_ready)

lemma scripts_by_kind:
  "mset (concat (map script_of cs)) =
     mset (map SetHostStateScript (concat (map patch_of cs))) +
     mset (map PostMessageScript (concat (map message_of cs)))"
proof (induction cs)
  case Nil then show ?case by simp
next
  case (Cons c cs)
  then show ?case by (cases c) simp_all
qed

text \<open>
  The life of a new host: calls \<open>cs\<close>, the web view arrives, calls \<open>mid\<close>, the start
  completes, calls \<open>cs'\<close>.
\<close>

lemma new_host_life:
  fixes i w mode pu cs wv mid url
  defines "h1 \<equiv> fold call cs (new_host i w mode pu)"
  defines "h2 \<equiv> fold call mid (state_of (makeWebView wv h1))"
  defines "h3 \<equiv> start_continue url h2"
  shows "evaluated h1 = []"
    and "returned (makeWebView wv h1)"
    and "evaluated h2 = concat (map script_of mid)"
    and "pendingHostStatePatches h2 = concat (map patch_of cs)"
    and "pendingPostMessages h2 = concat (map message_of cs)"
    and "evaluated h3 = concat (map script_of mid) @
                        map SetHostStateScript (concat (map patch_of cs)) @
                        map PostMessageScript (concat (map message_of cs))"
    and "pendingHostStatePatches h3 = []" and "pendingPostMessages h3 = []"
    and "fold call cs' h3 = h3\<lparr> evaluated := evaluated h3 @ concat (map script_of cs') \<rparr>"
    and "pendingHostStatePatches h1 = concat (map patch_of cs)"
    and "pendingPostMessages h1 = concat (map message_of cs)"
proof -
  let ?h0 = "new_host i w mode pu"
  have w0: "webView ?h0 = None" by (simp add: new_host_def)
  have e1: "h1 = ?h0\<lparr> pendingHostStatePatches := concat (map patch_of cs),
                       pendingPostMessages := concat (map message_of cs) \<rparr>"
    unfolding h1_def using calls_before_ready[OF w0, of cs] by (simp add: new_host_def)
  have f1: "\<not> destroyed h1" "frame h1" "evaluated h1 = []"
    "pendingHostStatePatches h1 = concat (map patch_of cs)"
    "pendingPostMessages h1 = concat (map message_of cs)"
    unfolding e1 by (simp_all add: new_host_def)
  let ?g = "h1\<lparr> webView := Some wv \<rparr>"
  have m: "makeWebView wv h1 = Returned () ?g" by (rule makeWebView_fresh[OF f1(2)])
  have g: "webView ?g \<noteq> None" "\<not> destroyed ?g" using f1(1) by simp_all
  have e2: "h2 = ?g\<lparr> evaluated := evaluated ?g @ concat (map script_of mid) \<rparr>"
    unfolding h2_def m using calls_after_ready[OF g, of mid] by simp
  have f2: "webView h2 \<noteq> None" "\<not> destroyed h2" unfolding e2 using f1(1) by simp_all
  show "evaluated h1 = []" by (rule f1(3))
  show "returned (makeWebView wv h1)" unfolding m by simp
  show a: "evaluated h2 = concat (map script_of mid)" unfolding e2 using f1(3) by simp
  show b: "pendingHostStatePatches h2 = concat (map patch_of cs)" unfolding e2 using f1(4) by simp
  show c: "pendingPostMessages h2 = concat (map message_of cs)" unfolding e2 using f1(5) by simp
  note r = start_continue_ready[OF f2, of url]
  show "evaluated h3 = concat (map script_of mid) @
                        map SetHostStateScript (concat (map patch_of cs)) @
                        map PostMessageScript (concat (map message_of cs))"
    unfolding h3_def r(1) a b c by simp
  show "pendingHostStatePatches h3 = []" unfolding h3_def by (rule r(2))
  show "pendingPostMessages h3 = []" unfolding h3_def by (rule r(3))
  show "fold call cs' h3 = h3\<lparr> evaluated := evaluated h3 @ concat (map script_of cs') \<rparr>"
    unfolding h3_def by (rule calls_after_ready[OF r(4) r(5)])
  show "pendingHostStatePatches h1 = concat (map patch_of cs)" by (rule f1(4))
  show "pendingPostMessages h1 = concat (map message_of cs)" by (rule f1(5))
qed

text \<open>
  C5 (as amended).  On a new host, the accepted calls made before the web view is assigned
  are queued and nothing is delivered; the web view can be assigned; from then on every
  call is delivered at once, in call order, without being queued.  When the start
  completes, the accepted patches and messages that were queued are delivered: first all
  patches in call order, then all messages in call order, after which both queues are
  empty.  So every accepted call made before the start completes is delivered exactly once.
\<close>

theorem queued_calls_flushed_per_kind:
  "evaluated (fold call cs (new_host i w mode pu)) = [] \<and>
   pendingHostStatePatches (fold call cs (new_host i w mode pu)) = concat (map patch_of cs) \<and>
   pendingPostMessages (fold call cs (new_host i w mode pu)) = concat (map message_of cs) \<and>
   returned (makeWebView wv (fold call cs (new_host i w mode pu))) \<and>
   evaluated (fold call mid (state_of (makeWebView wv (fold call cs (new_host i w mode pu)))))
     = concat (map script_of mid) \<and>
   pendingHostStatePatches
       (fold call mid (state_of (makeWebView wv (fold call cs (new_host i w mode pu)))))
     = concat (map patch_of cs) \<and>
   pendingPostMessages
       (fold call mid (state_of (makeWebView wv (fold call cs (new_host i w mode pu)))))
     = concat (map message_of cs) \<and>
   evaluated (start_continue url
       (fold call mid (state_of (makeWebView wv (fold call cs (new_host i w mode pu))))))
     = concat (map script_of mid) @
       map SetHostStateScript (concat (map patch_of cs)) @
       map PostMessageScript (concat (map message_of cs)) \<and>
   mset (evaluated (start_continue url
       (fold call mid (state_of (makeWebView wv (fold call cs (new_host i w mode pu)))))))
     = mset (concat (map script_of (cs @ mid))) \<and>
   pendingHostStatePatches (start_continue url
       (fold call mid (state_of (makeWebView wv (fold call cs (new_host i w mode pu)))))) = [] \<and>
   pendingPostMessages (start_continue url
       (fold call mid (state_of (makeWebView wv (fold call cs (new_host i w mode pu)))))) = [] \<and>
   (\<forall>cs'. fold call cs' (start_continue url
              (fold call mid (state_of (makeWebView wv (fold call cs (new_host i w mode pu))))))
          = (start_continue url
              (fold call mid (state_of (makeWebView wv (fold call cs (new_host i w mode pu))))))
            \<lparr> evaluated :=
                evaluated (start_continue url
                  (fold call mid (state_of (makeWebView wv (fold call cs (new_host i w mode pu))))))
                @ concat (map script_of cs') \<rparr>)"
proof -
  let ?h1 = "fold call cs (new_host i w mode pu)"
  let ?h2 = "fold call mid (state_of (makeWebView wv ?h1))"
  let ?h3 = "start_continue url ?h2"
  note r = new_host_life
  have before: "evaluated ?h1 = []" by (rule r(1))
  have queued: "pendingHostStatePatches ?h1 = concat (map patch_of cs)"
    "pendingPostMessages ?h1 = concat (map message_of cs)"
    by (rule r(10), rule r(11))
  have arrives: "returned (makeWebView wv ?h1)" by (rule r(2))
  have between: "evaluated ?h2 = concat (map script_of mid)" by (rule r(3))
  have kept: "pendingHostStatePatches ?h2 = concat (map patch_of cs)"
    "pendingPostMessages ?h2 = concat (map message_of cs)"
    by (rule r(4), rule r(5))
  have flushed: "evaluated ?h3 = concat (map script_of mid) @
                   map SetHostStateScript (concat (map patch_of cs)) @
                   map PostMessageScript (concat (map message_of cs))"
    by (rule r(6))
  have once: "mset (evaluated ?h3) = mset (concat (map script_of (cs @ mid)))"
    unfolding flushed by (simp add: scripts_by_kind)
  have empty: "pendingHostStatePatches ?h3 = []" "pendingPostMessages ?h3 = []"
    by (rule r(7), rule r(8))
  have later: "fold call cs' ?h3 = ?h3\<lparr> evaluated := evaluated ?h3 @ concat (map script_of cs') \<rparr>"
    for cs' by (rule r(9))
  from before queued arrives between kept flushed once empty later show ?thesis by blast
qed

text \<open>
  C5 as stated fails: a message posted before a patch, both before the web view is there,
  reaches the surface after the patch.
\<close>

theorem queued_calls_call_order_counterexample:
  "evaluated (start_continue (Some example_url)
      (state_of (makeWebView example_view
         (fold call [CallPostMessage example_message, CallSetHostStatePatch example_patch]
            (new_host ''abc'' ''clock'' WidgetMode None)))))
     = [SetHostStateScript example_patch, PostMessageScript example_message] \<and>
   evaluated (start_continue (Some example_url)
      (state_of (makeWebView example_view
         (fold call [CallPostMessage example_message, CallSetHostStatePatch example_patch]
            (new_host ''abc'' ''clock'' WidgetMode None)))))
     \<noteq> concat (map script_of [CallPostMessage example_message, CallSetHostStatePatch example_patch])"
  using new_host_life(6)[of "Some example_url" "[]" example_view
      "[CallPostMessage example_message, CallSetHostStatePatch example_patch]"
      "''abc''" "''clock''" WidgetMode None]
  by (simp add: example_message_def example_patch_def is_object_arg_def)


lemma evaluateScript_destroyed: "destroyed h \<Longrightarrow> evaluateScript s h = h"
  by (simp add: evaluateScript_def)

lemma fold_evaluate_destroyed:
  "destroyed h \<Longrightarrow> fold (\<lambda>x. evaluateScript (f x)) xs h = h"
  by (induction xs) (simp_all add: evaluateScript_destroyed)

lemma flush_destroyed:
  assumes "destroyed h"
  shows "destroyed (flushPendingHostStatePatches h)"
    and "evaluated (flushPendingHostStatePatches h) = evaluated h"
    and "destroyed (flushPendingMessages h)"
    and "evaluated (flushPendingMessages h) = evaluated h"
  using assms fold_evaluate_destroyed[of h SetHostStateScript]
    fold_evaluate_destroyed[of h PostMessageScript]
  by (simp_all add: flushPendingHostStatePatches_def flushPendingMessages_def
      sendHostStatePatch_def[abs_def] postMessage_script_def[abs_def])

lemma start_continue_destroyed:
  assumes "destroyed h"
  shows "destroyed (start_continue url h) \<and> evaluated (start_continue url h) = evaluated h"
proof (cases "webView h")
  case None then show ?thesis using assms by (simp add: start_continue_def)
next
  case (Some wv)
  let ?h1 = "h\<lparr> webView := Some (wv\<lparr> wv_page :=
      (case url of Some u \<Rightarrow> (if u \<noteq> [] then LoadedUri u
                                     else FallbackPage ''Missing entry/prefs URL'')
                        | None \<Rightarrow> FallbackPage ''Missing entry/prefs URL'') \<rparr>) \<rparr>"
  have d1: "destroyed ?h1" using assms by simp
  have d2: "destroyed (flushPendingHostStatePatches ?h1)" by (rule flush_destroyed(1)[OF d1])
  have "start_continue url h = flushPendingMessages (flushPendingHostStatePatches ?h1)"
    using Some by (simp add: start_continue_def Let_def)
  then show ?thesis
    using flush_destroyed(3,4)[OF d2] flush_destroyed(2)[OF d1] by simp
qed

lemma destroyed_step:
  assumes "destroyed h"
  shows "destroyed (host_step op h) \<and> evaluated (host_step op h) = evaluated h"
proof (cases op)
  case (OpCall c)
  then show ?thesis using assms
    by (cases c) (simp_all add: setHostStatePatch_def postMessage_def)
next
  case OpDestroy
  then show ?thesis using assms
    by (simp add: destroy_def Let_def split: option.splits)
next
  case (OpMakeWebView wv)
  then show ?thesis using assms by (simp add: makeWebView_def Let_def)
next
  case (OpStartContinue url)
  then show ?thesis using start_continue_destroyed[OF assms, of url] by simp
qed

lemma destroyed_steps:
  "destroyed h \<Longrightarrow>
   destroyed (fold host_step ops h) \<and> evaluated (fold host_step ops h) = evaluated h"
proof (induction ops arbitrary: h)
  case Nil then show ?case by simp
next
  case (Cons op ops)
  from destroyed_step[OF Cons.prems, of op] Cons.IH[of "host_step op h"]
  show ?case by simp
qed

lemma destroy_state:
  "destroyed (state_of (destroy h))" "evaluated (state_of (destroy h)) = evaluated h"
  by (simp_all add: destroy_def Let_def split: option.splits)

text \<open>
  C9 (as amended).  After a call of \<open>destroy\<close>, whether it returned or threw, the host
  is non-alive for good and nothing more reaches a surface, whatever calls, further
  \<open>destroy\<close>s or late completion of the start follow; patch and message calls have no
  throwing statement at all.  When the surface was ready, \<open>destroy\<close> returns normally
  and leaves the queue of pending patches empty.
\<close>

theorem destroy_makes_host_dead:
  "(\<forall>ops. \<not> isAlive (fold host_step ops (state_of (destroy h))) \<and>
          evaluated (fold host_step ops (state_of (destroy h))) = evaluated h) \<and>
   (webView h \<noteq> None \<and> frame h \<longrightarrow>
      returned (destroy h) \<and> pendingHostStatePatches (state_of (destroy h)) = [] \<and>
      webView (state_of (destroy h)) = None)"
proof -
  have a: "\<And>ops. \<not> isAlive (fold host_step ops (state_of (destroy h))) \<and>
          evaluated (fold host_step ops (state_of (destroy h))) = evaluated h"
    using destroyed_steps[OF destroy_state(1)[of h]] destroy_state(2)[of h]
    by (simp add: isAlive_def)
  have b: "webView h \<noteq> None \<and> frame h \<longrightarrow>
      returned (destroy h) \<and> pendingHostStatePatches (state_of (destroy h)) = [] \<and>
      webView (state_of (destroy h)) = None"
    by (auto simp: destroy_def Let_def)
  from a b show ?thesis by blast
qed

theorem destroy_makes_host_dead_witness:
  "webView example_ready_host \<noteq> None \<and> frame example_ready_host \<and>
   returned (destroy example_ready_host) \<and>
   pendingHostStatePatches (state_of (destroy example_ready_host)) = [] \<and>
   \<not> isAlive (fold host_step [OpCall (CallPostMessage example_message)]
                 (state_of (destroy example_ready_host)))"
proof -
  have h: "webView example_ready_host \<noteq> None \<and> frame example_ready_host"
    by (simp add: example_ready_host_def makeWebView_def new_host_def
        start_continue_def flushPendingHostStatePatches_def flushPendingMessages_def)
  from destroy_makes_host_dead[of example_ready_host] h show ?thesis by blast
qed

text \<open>
  C9 as stated fails: on a host whose surface is ready the first \<open>destroy\<close> returns and
  clears \<^verbatim>\<open>_frame\<close>, and the second one throws.
\<close>

theorem destroy_twice_counterexample:
  "returned (destroy example_ready_host) \<and>
   \<not> returned (destroy (state_of (destroy example_ready_host)))"
  by (simp add: example_ready_host_def makeWebView_def new_host_def
      start_continue_def flushPendingHostStatePatches_def flushPendingMessages_def
      destroy_def Let_def)

subsection \<open>Paths\<close>

lemma split_slash_nonempty: "split_slash s \<noteq> []"
  by (induction s) (auto split: list.splits)

lemma split_slash_append:
  "split_slash (x @ CHR ''/'' # y) = split_slash x @ split_slash y"
  by (induction x) (auto split: list.splits simp: split_slash_nonempty)

lemma split_slash_no_slash: "CHR ''/'' \<notin> set c \<Longrightarrow> split_slash c = [c]"
  by (induction c) auto

lemma split_slash_pieces: "p \<in> set (split_slash s) \<Longrightarrow> CHR ''/'' \<notin> set p"
  by (induction s arbitrary: p) (auto split: list.splits if_splits)

lemma join_slash_Cons2: "join_slash (c # c' # cs) = c @ CHR ''/'' # join_slash (c' # cs)"
  by (simp add: join_slash_def)

lemma split_join:
  "cs \<noteq> [] \<Longrightarrow> \<forall>c \<in> set cs. CHR ''/'' \<notin> set c \<Longrightarrow> split_slash (join_slash cs) = cs"
proof (induction cs rule: induct_list012)
  case 1 then show ?case by simp
next
  case (2 c) then show ?case by (simp add: join_slash_def split_slash_no_slash)
next
  case (3 c c' cs)
  then show ?case by (simp add: join_slash_Cons2 split_slash_append split_slash_no_slash)
qed

lemma resolve_skip_empty: "resolve st (filter (\<lambda>p. p \<noteq> []) xs) = resolve st xs"
  by (induction xs arbitrary: st) auto

lemma resolve_append_canonical:
  "canonical_comps cs \<Longrightarrow> resolve st (cs @ xs) = resolve (rev cs @ st) xs"
  by (induction cs arbitrary: st) (auto simp: canonical_comps_def)

lemma resolve_canonical: "canonical_comps cs \<Longrightarrow> resolve [] cs = cs"
  using resolve_append_canonical[of cs "[]" "[]"] by simp

lemma resolve_pieces:
  "p \<in> set (resolve st xs) \<Longrightarrow> p \<in> set st \<or> p \<in> set xs"
proof (induction st xs rule: resolve.induct)
  case (1 stack) then show ?case by simp
next
  case (2 stack p' ps)
  have tl: "\<And>q. q \<in> set (tl stack) \<Longrightarrow> q \<in> set stack"
    by (cases stack) auto
  from 2 show ?case by (auto split: if_splits dest: tl)
qed

lemma split_drop_seps:
  "filter (\<lambda>p. p \<noteq> []) (split_slash (dropWhile is_sep s)) = filter (\<lambda>p. p \<noteq> []) (split_slash s)"
  by (induction s) (auto simp: is_sep_def)

lemma all_seps_parts:
  "list_all is_sep s \<Longrightarrow> filter (\<lambda>p. p \<noteq> []) (split_slash s) = []"
  by (induction s) (auto simp: is_sep_def)

lemma strip_trailing_id:
  assumes "strip_seps b \<noteq> []"
  shows "strip_seps b @ trailing_seps b = dropWhile is_sep b"
proof -
  let ?t = "dropWhile is_sep b"
  have ne: "\<exists>x \<in> set ?t. \<not> is_sep x"
  proof (rule ccontr)
    assume "\<not> (\<exists>x \<in> set ?t. \<not> is_sep x)"
    then have "dropWhile is_sep (rev ?t) = []" by (simp add: dropWhile_eq_Nil_conv)
    then show False using assms by (simp add: strip_seps_def)
  qed
  have b: "b = takeWhile is_sep b @ ?t" by simp
  have "rev b = rev ?t @ rev (takeWhile is_sep b)" by (metis b rev_append)
  then have "takeWhile is_sep (rev b) = takeWhile is_sep (rev ?t)"
    using ne by (metis set_rev takeWhile_append1)
  then have "strip_seps b @ trailing_seps b
             = rev (dropWhile is_sep (rev ?t)) @ rev (takeWhile is_sep (rev ?t))"
    by (simp add: strip_seps_def trailing_seps_def)
  also have "\<dots> = rev (takeWhile is_sep (rev ?t) @ dropWhile is_sep (rev ?t))"
    by (simp only: rev_append)
  also have "\<dots> = ?t" by (simp only: takeWhile_dropWhile_id rev_rev_ident)
  finally show ?thesis .
qed

lemma strip_empty_all_seps: "strip_seps b = [] \<Longrightarrow> list_all is_sep b"
proof -
  assume "strip_seps b = []"
  then have "dropWhile is_sep (rev (dropWhile is_sep b)) = []" by (simp add: strip_seps_def)
  then have "\<forall>x \<in> set (dropWhile is_sep b). is_sep x" by (simp add: dropWhile_eq_Nil_conv)
  moreover have "\<forall>x \<in> set (takeWhile is_sep b). is_sep x" by (meson set_takeWhileD)
  ultimately show ?thesis
    by (metis (no_types, lifting) Un_iff list_all_iff set_append takeWhile_dropWhile_id)
qed

text \<open>The path of a canonical, non-empty root and what the GLib functions make of it.\<close>

lemma join_canonical_ends:
  assumes "canonical_comps cs" "cs \<noteq> []"
  shows "join_slash cs \<noteq> []" "\<not> is_sep (hd (join_slash cs))" "\<not> is_sep (last (join_slash cs))"
proof -
  from assms obtain c cs' where cs: "cs = c # cs'" by (cases cs) auto
  then have c: "c \<noteq> []" "CHR ''/'' \<notin> set c" using assms by (auto simp: canonical_comps_def)
  show "join_slash cs \<noteq> []" using c cs by (simp add: join_slash_def)
  show "\<not> is_sep (hd (join_slash cs))" using c cs
    by (cases c) (auto simp: join_slash_def is_sep_def)
  show "\<not> is_sep (last (join_slash cs))" using assms
  proof (induction cs rule: induct_list012)
    case 1 then show ?case by simp
  next
    case (2 x) then show ?case
      by (auto simp: join_slash_def canonical_comps_def is_sep_def dest: last_in_set)
  next
    case (3 x y zs)
    have "join_slash (y # zs) \<noteq> []" using 3
      by (auto simp: join_slash_def canonical_comps_def)
    then show ?case using 3 by (simp add: join_slash_Cons2 canonical_comps_def)
  qed
qed

lemma root_path_facts:
  assumes "canonical_comps cs" "cs \<noteq> []"
  shows "takeWhile is_sep (CHR ''/'' # join_slash cs) = ''/''"
    and "strip_seps (CHR ''/'' # join_slash cs) = join_slash cs"
    and "split_slash (join_slash cs) = cs"
proof -
  note j = join_canonical_ends[OF assms]
  obtain x xs where J: "join_slash cs = x # xs" using j(1) by (cases "join_slash cs") auto
  have hx: "\<not> is_sep x" using j(2) J by simp
  show "takeWhile is_sep (CHR ''/'' # join_slash cs) = ''/''" using hx J by (simp add: is_sep_def)
  have d1: "dropWhile is_sep (CHR ''/'' # join_slash cs) = join_slash cs"
    using hx J by (simp add: is_sep_def)
  obtain y ys where R: "rev (join_slash cs) = y # ys"
    using j(1) by (cases "rev (join_slash cs)") auto
  have "hd (rev (join_slash cs)) = last (join_slash cs)" using j(1) by (simp add: hd_rev)
  then have "\<not> is_sep y" using j(3) R by simp
  then have d2: "dropWhile is_sep (rev (join_slash cs)) = rev (join_slash cs)"
    unfolding R by simp
  show "strip_seps (CHR ''/'' # join_slash cs) = join_slash cs"
    unfolding strip_seps_def d1 d2 by simp
  show "split_slash (join_slash cs) = cs"
    using assms by (intro split_join) (auto simp: canonical_comps_def list_all_iff)
qed

lemma candidate_parts:
  assumes "canonical_comps cs" "cs \<noteq> []" "rel \<noteq> []"
  shows "\<exists>t. build_filenamev (CHR ''/'' # join_slash cs) rel = CHR ''/'' # join_slash cs @ CHR ''/'' # t \<and>
             filter (\<lambda>p. p \<noteq> []) (split_slash t) = filter (\<lambda>p. p \<noteq> []) (split_slash rel)"
proof (cases "strip_seps rel = []")
  case True
  then have all: "list_all is_sep rel" by (rule strip_empty_all_seps)
  then obtain r' where rel: "rel = CHR ''/'' # r'" "list_all is_sep r'"
    using assms(3) by (cases rel) (auto simp: is_sep_def)
  have "build_filenamev (CHR ''/'' # join_slash cs) rel = CHR ''/'' # join_slash cs @ CHR ''/'' # r'"
    using True rel root_path_facts(1,2)[OF assms(1,2)] by (simp add: build_filenamev_def)
  moreover have "filter (\<lambda>p. p \<noteq> []) (split_slash r') = filter (\<lambda>p. p \<noteq> []) (split_slash rel)"
    using all rel(2) by (simp add: all_seps_parts)
  ultimately show ?thesis by blast
next
  case False
  have j: "join_slash cs \<noteq> []" by (rule join_canonical_ends(1)[OF assms(1,2)])
  have "build_filenamev (CHR ''/'' # join_slash cs) rel
          = CHR ''/'' # join_slash cs @ CHR ''/'' # dropWhile is_sep rel"
    using False j root_path_facts(1,2)[OF assms(1,2)] strip_trailing_id[OF False]
    by (simp add: build_filenamev_def)
  then show ?thesis using split_drop_seps[of rel] by blast
qed

lemma parts_root_then:
  assumes "canonical_comps cs" "cs \<noteq> []"
  shows "filter (\<lambda>p. p \<noteq> []) (split_slash (CHR ''/'' # join_slash cs @ CHR ''/'' # t))
           = cs @ filter (\<lambda>p. p \<noteq> []) (split_slash t)"
proof -
  have ne: "filter (\<lambda>p. p \<noteq> []) cs = cs" using assms(1)
    by (induction cs) (auto simp: canonical_comps_def)
  show ?thesis
    using root_path_facts(3)[OF assms] ne by (simp add: split_slash_append)
qed

lemma canon_lead:
  assumes "canonical_comps cs" "cs \<noteq> []"
  shows "length (takeWhile is_sep (CHR ''/'' # join_slash cs @ xs)) \<noteq> 2"
proof -
  note j = join_canonical_ends[OF assms]
  obtain x ys where J: "join_slash cs = x # ys" using j(1) by (cases "join_slash cs") auto
  have "\<not> is_sep x" using j(2) J by simp
  then show ?thesis using J by (simp add: is_sep_def)
qed

lemma canonical_file_of_candidate:
  assumes "canonical_comps cs" "cs \<noteq> []" "rel \<noteq> []"
  shows "canonicalize_filename (build_filenamev (CHR ''/'' # join_slash cs) rel)
           = CHR ''/'' # join_slash (resolve (rev cs) (split_slash rel))"
proof -
  from candidate_parts[OF assms] obtain t where
    b: "build_filenamev (CHR ''/'' # join_slash cs) rel = CHR ''/'' # join_slash cs @ CHR ''/'' # t"
    and p: "filter (\<lambda>p. p \<noteq> []) (split_slash t) = filter (\<lambda>p. p \<noteq> []) (split_slash rel)"
    by blast
  let ?cand = "CHR ''/'' # join_slash cs @ CHR ''/'' # t"
  have "resolve [] (split_slash ?cand) = resolve [] (filter (\<lambda>p. p \<noteq> []) (split_slash ?cand))"
    by (simp only: resolve_skip_empty)
  also have "\<dots> = resolve [] (cs @ filter (\<lambda>p. p \<noteq> []) (split_slash rel))"
    unfolding parts_root_then[OF assms(1,2)] p ..
  also have "\<dots> = resolve (rev cs) (filter (\<lambda>p. p \<noteq> []) (split_slash rel))"
    using resolve_append_canonical[OF assms(1), of "[]"] by simp
  also have "\<dots> = resolve (rev cs) (split_slash rel)" by (simp only: resolve_skip_empty)
  finally have r: "resolve [] (split_slash ?cand) = resolve (rev cs) (split_slash rel)" .
  show ?thesis unfolding b canonicalize_filename_def r
    using canon_lead[OF assms(1,2), of "CHR ''/'' # t"] by simp
qed

lemma canonical_root_path:
  assumes "canonical_comps cs" "cs \<noteq> []"
  shows "canonicalize_filename (CHR ''/'' # join_slash cs) = CHR ''/'' # join_slash cs"
    and "\<not> suffix ''/'' (CHR ''/'' # join_slash cs)"
proof -
  have "resolve [] (split_slash (CHR ''/'' # join_slash cs)) = cs"
    using root_path_facts(3)[OF assms] resolve_canonical[OF assms(1)] by simp
  then show "canonicalize_filename (CHR ''/'' # join_slash cs) = CHR ''/'' # join_slash cs"
    unfolding canonicalize_filename_def using canon_lead[OF assms, of "[]"] by simp
  note j = join_canonical_ends[OF assms]
  have "last (CHR ''/'' # join_slash cs) = last (join_slash cs)" using j(1) by simp
  then have "last (CHR ''/'' # join_slash cs) \<noteq> CHR ''/''" using j(3) by (simp add: is_sep_def)
  then show "\<not> suffix ''/'' (CHR ''/'' # join_slash cs)"
    by (metis last_snoc suffix_def)
qed

lemma prefix_paths_comps:
  assumes "canonical_comps cs" "cs \<noteq> []" "\<forall>c \<in> set fs. CHR ''/'' \<notin> set c"
    and "prefix ((CHR ''/'' # join_slash cs) @ ''/'') (CHR ''/'' # join_slash fs)"
  shows "prefix cs fs"
proof -
  from assms(4) obtain z where z: "join_slash fs = join_slash cs @ CHR ''/'' # z"
    by (auto simp: prefix_def)
  then have "fs \<noteq> []" by (auto simp: join_slash_def)
  then have "split_slash (join_slash fs) = fs" using assms(3) by (rule split_join)
  moreover have "split_slash (join_slash cs @ CHR ''/'' # z) = cs @ split_slash z"
    using root_path_facts(3)[OF assms(1,2)] by (simp add: split_slash_append)
  ultimately show ?thesis using z by (metis prefixI)
qed

lemma confined_only_if_inside:
  assumes c: "canonical_comps cs" and rel: "rel \<noteq> []"
    and p: "prefix
       (if suffix ''/'' (canonicalize_filename (CHR ''/'' # join_slash cs))
        then canonicalize_filename (CHR ''/'' # join_slash cs)
        else canonicalize_filename (CHR ''/'' # join_slash cs) @ ''/'')
       (canonicalize_filename (build_filenamev (CHR ''/'' # join_slash cs) rel))"
  shows "prefix cs (resolve (rev cs) (split_slash rel))"
proof (cases "cs = []")
  case True then show ?thesis by simp
next
  case False
  have ns: "\<forall>x \<in> set (resolve (rev cs) (split_slash rel)). CHR ''/'' \<notin> set x"
  proof
    fix x assume "x \<in> set (resolve (rev cs) (split_slash rel))"
    then have "x \<in> set cs \<or> x \<in> set (split_slash rel)" using resolve_pieces by fastforce
    then show "CHR ''/'' \<notin> set x" using c split_slash_pieces
      by (auto simp: canonical_comps_def list_all_iff)
  qed
  from p have "prefix ((CHR ''/'' # join_slash cs) @ ''/'')
       (CHR ''/'' # join_slash (resolve (rev cs) (split_slash rel)))"
    unfolding canonical_file_of_candidate[OF c False rel] canonical_root_path(1)[OF c False]
    using canonical_root_path(2)[OF c False] by simp
  then show ?thesis by (rule prefix_paths_comps[OF c False ns])
qed

subsection \<open>The scheme handler\<close>

lemma serve_escape:
  assumes c: "canonical_comps cs" and o: "resolves_outside (LocalFile cs) (effectiveRelPath path)"
  shows "serve_from_root fs guess csp rootDir (CHR ''/'' # join_slash cs) path
           = (FinishError PERMISSION_DENIED, [])"
proof -
  let ?rel = "effectiveRelPath path"
  have np: "\<not> prefix cs (resolve (rev cs) (split_slash ?rel))" using o by simp
  have rel: "?rel \<noteq> []"
  proof
    assume "?rel = []"
    then have "resolve (rev cs) (split_slash ?rel) = cs" by simp
    then show False using np by simp
  qed
  have "\<not> prefix
       (if suffix ''/'' (canonicalize_filename (CHR ''/'' # join_slash cs))
        then canonicalize_filename (CHR ''/'' # join_slash cs)
        else canonicalize_filename (CHR ''/'' # join_slash cs) @ ''/'')
       (canonicalize_filename (build_filenamev (CHR ''/'' # join_slash cs) ?rel))"
    using confined_only_if_inside[OF c rel] np by blast
  then show ?thesis using rel by (simp add: serve_from_root_def Let_def)
qed

lemma getInstanceRoot_cached:
  "map_of (instanceRoots c) i = Some dir \<Longrightarrow> getInstanceRoot reg m i c = Returned (Some dir) c"
  by (simp add: getInstanceRoot_def)

text \<open>The root bound to a view by \<^verbatim>\<open>newViewForInstance\<close> is registered for its instance.\<close>

lemma newViewForInstance_binds:
  assumes "newViewForInstance reg m wid i c = Returned wv c'" "wv_dingWidgetRoot wv = Some r"
  shows "map_of (instanceRoots c') i = Some r \<and> wv_dingInstanceId wv = i"
  using assms
  by (auto simp: newViewForInstance_def getInstanceRoot_def map_of_map_set
      split: option.splits result.splits)

text \<open>
  C1 (as amended).  On a view whose bound root is registered for its instance, every
  request whose normalised relative path resolves outside the root is finished with
  permission-denied (with invalid-argument when the scheme of the URI is not
  \<^verbatim>\<open>ding-widget\<close> or the URI names no instance), and the handler makes no file-system call
  at all: no query, no read.
\<close>

theorem escaping_request_denied:
  assumes c: "canonical_comps cs"
    and bound: "wv_dingWidgetRoot (rq_webView rq) = Some (LocalFile cs)"
    and reg: "map_of (instanceRoots c) (wv_dingInstanceId (rq_webView rq)) \<noteq> None"
    and uri: "rq_uri rq = ParsedUri scheme hostname path"
    and out: "resolves_outside (LocalFile cs) (effectiveRelPath path)"
  shows "fst (onDingWidgetUriRequestAsync reg' m fs guess rq c)
           = (if scheme \<noteq> ''ding-widget'' \<or> hostname = None \<or> hostname = Some []
              then FinishError INVALID_ARGUMENT else FinishError PERMISSION_DENIED) \<and>
         fst (snd (onDingWidgetUriRequestAsync reg' m fs guess rq c)) = []"
proof (cases "scheme \<noteq> ''ding-widget'' \<or> hostname = None \<or> hostname = Some []")
  case True
  then show ?thesis using uri by (auto simp: onDingWidgetUriRequestAsync_def)
next
  case False
  then obtain i where h: "hostname = Some i" "i \<noteq> []" "scheme = ''ding-widget''" by auto
  show ?thesis
  proof (cases "wv_dingInstanceId (rq_webView rq) = i")
    case False
    then show ?thesis using uri h by (simp add: onDingWidgetUriRequestAsync_def Let_def)
  next
    case True
    from reg True obtain dir where d: "map_of (instanceRoots c) i = Some dir" by auto
    note g = getInstanceRoot_cached[OF d, of reg' m]
    show ?thesis
    proof (cases "get_path dir = Some (CHR ''/'' # join_slash cs)")
      case False
      then show ?thesis using uri h True bound g
        by (auto simp: onDingWidgetUriRequestAsync_def Let_def split: option.splits)
    next
      case same: True
      show ?thesis using uri h True bound g same serve_escape[OF c out, of fs guess "cspString c" dir]
        by (simp add: onDingWidgetUriRequestAsync_def Let_def)
    qed
  qed
qed

theorem escaping_request_denied_witness:
  "canonical_comps [''usr'', ''share'', ''ding'', ''widgets'', ''clock''] \<and>
   resolves_outside example_root (effectiveRelPath ''/../../etc/passwd'') \<and>
   fst (onDingWidgetUriRequestAsync (scanRoots []) example_manager example_fs no_guess
          (example_request ''/../../etc/passwd'') example_context)
     = FinishError PERMISSION_DENIED \<and>
   fst (snd (onDingWidgetUriRequestAsync (scanRoots []) example_manager example_fs no_guess
          (example_request ''/../../etc/passwd'') example_context)) = []"
proof -
  have c: "canonical_comps [''usr'', ''share'', ''ding'', ''widgets'', ''clock'']"
    by (simp add: canonical_comps_def)
  have b: "wv_dingWidgetRoot (rq_webView (example_request ''/../../etc/passwd''))
             = Some (LocalFile [''usr'', ''share'', ''ding'', ''widgets'', ''clock''])"
    by (simp add: example_request_def example_view_def)
  have r: "map_of (instanceRoots example_context)
             (wv_dingInstanceId (rq_webView (example_request ''/../../etc/passwd''))) \<noteq> None"
    by (simp add: example_request_def example_view_def example_context_def)
  have u: "rq_uri (example_request ''/../../etc/passwd'')
             = ParsedUri ''ding-widget'' (Some ''abc'') ''/../../etc/passwd''"
    by (simp add: example_request_def)
  have o: "resolves_outside (LocalFile [''usr'', ''share'', ''ding'', ''widgets'', ''clock''])
             (effectiveRelPath ''/../../etc/passwd'')"
    by code_simp
  have e: "fst (onDingWidgetUriRequestAsync (scanRoots []) example_manager example_fs no_guess
          (example_request ''/../../etc/passwd'') example_context) \<noteq> FinishError INVALID_ARGUMENT"
    by code_simp
  from escaping_request_denied[OF c b r u o, of "scanRoots []" example_manager example_fs no_guess]
    c o e show ?thesis by (simp add: example_root_def)
qed

text \<open>
  C1 as stated fails: a path that contains \<^verbatim>\<open>..\<close> but stays inside the root is served, and
  so is a path written with a leading slash, which is read relative to the root.
\<close>

theorem dotdot_inside_root_counterexample:
  "''..'' \<in> set (split_slash ''/a/../index.html'') \<and>
   is_response (fst (onDingWidgetUriRequestAsync (scanRoots []) example_manager example_fs
      no_guess (example_request ''/a/../index.html'') example_context)) \<and>
   list_ex is_load (fst (snd (onDingWidgetUriRequestAsync (scanRoots []) example_manager
      example_fs no_guess (example_request ''/a/../index.html'') example_context))) \<and>
   is_response (fst (onDingWidgetUriRequestAsync (scanRoots []) example_manager example_fs
      no_guess (example_request ''//index.html'') example_context))"
  by code_simp





lemma walk_events_nonempty: "ps \<noteq> [] \<Longrightarrow> snd (symlink_walk fs f ps) \<noteq> []"
  by (cases ps) (auto simp: Let_def split: option.splits prod.splits)







subsection \<open>Widget manager: loading nothing, exporting\<close>

text \<open>
  C7.  \<open>loadState\<close> of null, and of a document of version 1 without an \<^verbatim>\<open>instances\<close>
  array, returns with the manager as it was: no instance added, removed or changed.
\<close>

theorem loadState_null_is_noop:
  "loadState env None m = Returned () m \<and>
   loadState env (Some \<lparr> s_version = Some 1, s_instances = None \<rparr>) m = Returned () m"
proof
  show "loadState env None m = Returned () m"
    by (simp add: loadState_def)
  show "loadState env (Some \<lparr> s_version = Some 1, s_instances = None \<rparr>) m = Returned () m"
    by (simp add: loadState_def)
qed

lemma mset_insert_sorted: "mset (insert_sorted cmp x ys) = add_mset x (mset ys)"
  by (induction ys) auto

lemma mset_stable_sort: "mset (stable_sort cmp xs) = mset xs"
  unfolding stable_sort_def by (induction xs) (simp_all add: mset_insert_sorted)

lemma exportState_doc:
  "fst (exportState env m) =
     \<lparr> s_version = Some 1,
       s_instances = Some (map export_entry
         (stable_sort (export_compare (fst (computeZIndexByInstanceId env m)))
            (filter (\<lambda>inst. \<not> isAddButton inst) (map snd (instances m))))) \<rparr>"
  by (simp add: exportState_def computeZIndexByInstanceId_def sortedInstancesForExport_def)

lemma exportState_frame: "snd (exportState env m) = m"
  by (simp add: exportState_def computeZIndexByInstanceId_def sortedInstancesForExport_def)

lemma exportState_entries:
  "mset (the_default [] (s_instances (fst (exportState env m)))) =
   mset (map export_entry (filter (\<lambda>inst. \<not> isAddButton inst) (map snd (instances m))))"
proof -
  have "mset (map export_entry (stable_sort (export_compare (fst (computeZIndexByInstanceId env m)))
            (filter (\<lambda>inst. \<not> isAddButton inst) (map snd (instances m))))) =
        image_mset export_entry (mset (filter (\<lambda>inst. \<not> isAddButton inst) (map snd (instances m))))"
    by (simp only: mset_map mset_stable_sort)
  then show ?thesis unfolding exportState_doc by simp
qed

text \<open>
  C10.  \<open>exportState\<close> leaves the manager exactly as it was, so the instance map has the
  same ids and every instance its fields; what it returns is a new document of version 1
  with one entry, built from the current fields, for every instance that is not an add
  button.
\<close>

theorem exportState_is_pure:
  "snd (exportState env m) = m \<and>
   map fst (instances (snd (exportState env m))) = map fst (instances m) \<and>
   s_version (fst (exportState env m)) = Some 1 \<and>
   mset (the_default [] (s_instances (fst (exportState env m)))) =
     mset (map export_entry (filter (\<lambda>inst. \<not> isAddButton inst) (map snd (instances m))))"
proof -
  have a: "snd (exportState env m) = m" by (rule exportState_frame)
  have b: "s_version (fst (exportState env m)) = Some 1" by (simp add: exportState_doc)
  from a b exportState_entries[of env m] show ?thesis by simp
qed

subsection \<open>Preferences window\<close>

lemma removeAll_only: "set xs \<subseteq> {w} \<Longrightarrow> removeAll w xs = []"
  by (induction xs) auto

lemma closeIfAny_result:
  assumes "prefs_inv c"
  shows "case closePreferencesIfAny c of
           Returned u c1 \<Rightarrow> openWindows c1 = [] \<and> prefsWindow c1 = None \<and>
                            windowsCreated c1 = windowsCreated c \<and> presented c1 = presented c
         | Threw c1 \<Rightarrow> openWindows c1 = openWindows c \<and> prefsWindow c1 = prefsWindow c \<and>
                       prefsInstanceId c1 = prefsInstanceId c \<and>
                       windowsCreated c1 = windowsCreated c \<and> presented c1 = presented c"
proof (cases "prefsWindow c")
  case None
  then show ?thesis using assms by (simp add: closePreferencesIfAny_def prefs_inv_def)
next
  case (Some w)
  then have "removeAll w (openWindows c) = []"
    using assms by (simp add: prefs_inv_def removeAll_only)
  then show ?thesis using Some
    by (cases "destroy_opt (prefsHost c)") (simp_all add: closePreferencesIfAny_def)
qed

lemma prefs_inv_closeIfAny:
  assumes "prefs_inv c"
  shows "prefs_inv (state_of (closePreferencesIfAny c))"
  using closeIfAny_result[OF assms] assms
  by (cases "closePreferencesIfAny c") (simp_all add: prefs_inv_def)

lemma prefs_inv_closeForInstance:
  "prefs_inv c \<Longrightarrow> prefs_inv (state_of (closePreferencesForInstance i c))"
  by (simp add: closePreferencesForInstance_def prefs_inv_closeIfAny)

lemma prefs_inv_open:
  assumes "prefs_inv c"
  shows "prefs_inv (state_of (openPreferencesForInstance m i uri c))"
proof -
  have p: "prefs_inv (c\<lparr> presented := xs \<rparr>)" for xs using assms by (simp add: prefs_inv_def)
  show ?thesis
  proof (cases "closePreferencesIfAny c")
    case (Threw c1)
    then have "prefs_inv c1" using prefs_inv_closeIfAny[OF assms] by simp
    then show ?thesis using Threw assms p
      by (auto simp: openPreferencesForInstance_def split: option.splits)
  next
    case (Returned u c1)
    then have c1: "openWindows c1 = []" "prefsWindow c1 = None"
      using closeIfAny_result[OF assms] by simp_all
    have i1: "prefs_inv c1" using prefs_inv_closeIfAny[OF assms] Returned by simp
    have i2: "prefs_inv (c1\<lparr> prefsHost := h, prefsWindow := Some (windowsCreated c1),
                prefsInstanceId := j, openWindows := openWindows c1 @ [windowsCreated c1],
                windowsCreated := Suc (windowsCreated c1), presented := ps \<rparr>)" for h j ps
      using c1 by (simp add: prefs_inv_def)
    show ?thesis using Returned assms p i1 i2
      by (auto simp: openPreferencesForInstance_def Let_def split: option.splits)
  qed
qed

lemma prefs_inv_closeRequest:
  assumes "prefs_inv c" "openWindows c = w # ws"
  shows "prefs_inv (onCloseRequest w c)"
proof -
  have "set (openWindows c) \<subseteq> {w}" using assms by (auto simp: prefs_inv_def)
  then have "removeAll w (openWindows c) = []" by (rule removeAll_only)
  then show ?thesis using assms
    by (cases "destroy_opt (prefsHost c)") (auto simp: onCloseRequest_def prefs_inv_def)
qed

lemma prefs_inv_step: "prefs_inv c \<Longrightarrow> prefs_inv (prefs_step e c)"
proof (cases e)
  case (EvOpen m i uri)
  assume "prefs_inv c" then show ?thesis using EvOpen by (simp add: prefs_inv_open)
next
  case (EvCloseForInstance i)
  assume "prefs_inv c" then show ?thesis using EvCloseForInstance by (simp add: prefs_inv_closeForInstance)
next
  case EvCloseIfAny
  assume "prefs_inv c" then show ?thesis using EvCloseIfAny by (simp add: prefs_inv_closeIfAny)
next
  case EvCloseRequest
  assume "prefs_inv c" then show ?thesis using EvCloseRequest
    by (cases "openWindows c") (simp_all add: prefs_inv_closeRequest)
qed

lemma prefs_inv_run: "prefs_inv c \<Longrightarrow> prefs_inv (fold prefs_step es c)"
  by (induction es arbitrary: c) (simp_all add: prefs_inv_step)

lemma prefs_inv_new: "new_context env = Some c \<Longrightarrow> prefs_inv c"
  by (auto simp: prefs_inv_def new_context_def split: option.splits)

lemma prefs_inv_at_most_one: "prefs_inv c \<Longrightarrow> length (openWindows c) \<le> 1"
proof -
  assume i: "prefs_inv c"
  then have "card (set (openWindows c)) \<le> 1"
    by (cases "prefsWindow c") (auto simp: prefs_inv_def card_le_Suc0_iff_eq subset_singleton_iff)
  then show ?thesis using i by (simp add: prefs_inv_def distinct_card)
qed

lemma open_not_selected:
  "selectedInstanceId m \<noteq> Some i \<Longrightarrow> openPreferencesForInstance m i uri c = Returned () c"
  by (simp add: openPreferencesForInstance_def)

lemma open_same_instance:
  assumes "i \<noteq> []" "truthy_string uri" "selectedInstanceId m = Some i"
    "prefsWindow c = Some w" "prefsInstanceId c = Some i"
  shows "openPreferencesForInstance m i uri c = Returned () (c\<lparr> presented := presented c @ [w] \<rparr>)"
  using assms by (cases uri) (auto simp: openPreferencesForInstance_def)

lemma open_other_instance:
  assumes inv: "prefs_inv c" and "i \<noteq> []" "truthy_string uri" "selectedInstanceId m = Some i"
    "prefsWindow c = Some w" "prefsInstanceId c \<noteq> Some i"
  shows "case openPreferencesForInstance m i uri c of
           Returned u c' \<Rightarrow>
             w \<notin> set (openWindows c') \<and>
             (case getInstance m i of
                None \<Rightarrow> prefsWindow c' = None \<and> openWindows c' = []
              | Some inst \<Rightarrow>
                  prefsWindow c' = Some (windowsCreated c) \<and>
                  openWindows c' = [windowsCreated c] \<and>
                  prefsInstanceId c' = Some i \<and>
                  presented c' = presented c @ [windowsCreated c])
         | Threw c' \<Rightarrow>
             openWindows c' = openWindows c \<and> prefsWindow c' = Some w \<and>
             prefsInstanceId c' = prefsInstanceId c"
proof -
  have fresh: "w < windowsCreated c" using inv assms(5) by (simp add: prefs_inv_def)
  have o: "openPreferencesForInstance m i uri c =
     (case closePreferencesIfAny c of
             Threw c1 \<Rightarrow> Threw c1
           | Returned _ c1 \<Rightarrow>
               (case getInstance m i of
                  None \<Rightarrow> Returned () c1
                | Some inst \<Rightarrow>
                    Returned ()
                         (c1\<lparr> prefsHost := Some (new_host i (widgetId inst) PrefsMode uri),
                               prefsWindow := Some (windowsCreated c1),
                               prefsInstanceId := Some i,
                               openWindows := openWindows c1 @ [windowsCreated c1],
                               windowsCreated := Suc (windowsCreated c1),
                               presented := presented c1 @ [windowsCreated c1] \<rparr>)))"
    using assms(2-6) by (cases uri) (auto simp: openPreferencesForInstance_def Let_def)
  show ?thesis
  proof (cases "closePreferencesIfAny c")
    case (Threw c1)
    then show ?thesis using closeIfAny_result[OF inv] assms(5) unfolding o by simp
  next
    case (Returned u c1)
    then have c1: "openWindows c1 = []" "prefsWindow c1 = None"
      "windowsCreated c1 = windowsCreated c" "presented c1 = presented c"
      using closeIfAny_result[OF inv] by simp_all
    show ?thesis unfolding o Returned using c1 fresh
      by (cases "getInstance m i") simp_all
  qed
qed

lemma destroy_opt_ready:
  "h = None \<or> (\<exists>x. h = Some x \<and> webView x \<noteq> None \<and> frame x) \<Longrightarrow> returned (destroy_opt h)"
  by (cases h) (auto simp: destroy_def Let_def)

lemma closeIfAny_returns:
  assumes "prefsHost c = None \<or> (\<exists>x. prefsHost c = Some x \<and> webView x \<noteq> None \<and> frame x)"
  shows "returned (closePreferencesIfAny c)"
  using destroy_opt_ready[OF assms]
  by (cases "destroy_opt (prefsHost c)")
     (auto simp: closePreferencesIfAny_def split: option.splits)

lemma open_returns:
  assumes "prefsHost c = None \<or> (\<exists>x. prefsHost c = Some x \<and> webView x \<noteq> None \<and> frame x)"
  shows "returned (openPreferencesForInstance m i uri c)"
  using closeIfAny_returns[OF assms]
  by (cases "closePreferencesIfAny c")
     (auto simp: openPreferencesForInstance_def Let_def split: option.splits)

text \<open>
  What the code keeps: from the creation of the context on, whatever sequence of openings,
  closings and close requests happens, at most one preferences window exists.  Opening for
  the instance whose window is open presents that window again and changes nothing else;
  opening for an instance that is not the selected one changes nothing; opening for another
  instance closes the existing window before the new one is made when the host of the
  existing window can be destroyed, and makes no window when \<open>destroy\<close> throws.
\<close>

lemma prefs_window_discipline:
  "(\<forall>c0. new_context env = Some c0 \<longrightarrow> length (openWindows (fold prefs_step es c0)) \<le> 1) \<and>
   (prefs_inv c \<longrightarrow>
      prefs_inv (state_of (openPreferencesForInstance m i uri c)) \<and>
      (selectedInstanceId m \<noteq> Some i \<longrightarrow>
         openPreferencesForInstance m i uri c = Returned () c) \<and>
      (i \<noteq> [] \<and> truthy_string uri \<and> selectedInstanceId m = Some i \<longrightarrow>
         (\<forall>w. prefsWindow c = Some w \<and> prefsInstanceId c = Some i \<longrightarrow>
            openPreferencesForInstance m i uri c =
              Returned () (c\<lparr> presented := presented c @ [w] \<rparr>)) \<and>
         (\<forall>w. prefsWindow c = Some w \<and> prefsInstanceId c \<noteq> Some i \<longrightarrow>
            (case openPreferencesForInstance m i uri c of
               Returned u c' \<Rightarrow>
                 w \<notin> set (openWindows c') \<and>
                 (case getInstance m i of
                    None \<Rightarrow> prefsWindow c' = None \<and> openWindows c' = []
                  | Some inst \<Rightarrow>
                      prefsWindow c' = Some (windowsCreated c) \<and>
                      openWindows c' = [windowsCreated c] \<and>
                      prefsInstanceId c' = Some i \<and>
                      presented c' = presented c @ [windowsCreated c])
             | Threw c' \<Rightarrow>
                 openWindows c' = openWindows c \<and> prefsWindow c' = Some w \<and>
                 prefsInstanceId c' = prefsInstanceId c) \<and>
            (prefsHost c = None \<or> (\<exists>x. prefsHost c = Some x \<and> webView x \<noteq> None \<and> frame x)
               \<longrightarrow> returned (openPreferencesForInstance m i uri c)))))"
proof -
  have a: "\<forall>c0. new_context env = Some c0 \<longrightarrow> length (openWindows (fold prefs_step es c0)) \<le> 1"
    using prefs_inv_at_most_one[OF prefs_inv_run[OF prefs_inv_new]] by blast
  have b: "prefs_inv c \<longrightarrow> prefs_inv (state_of (openPreferencesForInstance m i uri c))"
    by (simp add: prefs_inv_open)
  have d: "selectedInstanceId m \<noteq> Some i \<longrightarrow> openPreferencesForInstance m i uri c = Returned () c"
    by (simp add: open_not_selected)
  from a b d open_same_instance[of i uri m c] open_other_instance[of c i uri m]
    open_returns[of c m i uri]
  show ?thesis by blast
qed

text \<open>
  C8 fails in the code.  The preferences window of instance \<^verbatim>\<open>abc\<close> has just been opened,
  so its host still waits for its web view; instance \<^verbatim>\<open>def\<close> is the selected one.
  Opening the preferences for \<^verbatim>\<open>def\<close> is left by the exception of \<open>destroy\<close>: the
  window of \<^verbatim>\<open>abc\<close> is not closed and stays the one the context refers to, and no window
  is made for \<^verbatim>\<open>def\<close>.
\<close>

theorem open_for_other_instance_throws:
  "openPreferencesForInstance example_live_manager ''abc'' (Some ''prefs.html'') example_context
     = Returned () example_pending_prefs_context \<and>
   selectedInstanceId example_manager_two = Some ''def'' \<and>
   \<not> returned (openPreferencesForInstance example_manager_two ''def'' (Some ''prefs.html'')
                  example_pending_prefs_context) \<and>
   openWindows (state_of (openPreferencesForInstance example_manager_two ''def''
                  (Some ''prefs.html'') example_pending_prefs_context)) = [0] \<and>
   prefsWindow (state_of (openPreferencesForInstance example_manager_two ''def''
                  (Some ''prefs.html'') example_pending_prefs_context)) = Some 0 \<and>
   prefsInstanceId (state_of (openPreferencesForInstance example_manager_two ''def''
                  (Some ''prefs.html'') example_pending_prefs_context)) = Some ''abc''"
  by (simp add: openPreferencesForInstance_def closePreferencesIfAny_def destroy_def Let_def
      example_pending_prefs_context_def example_context_def example_manager_two_def
      example_live_manager_def example_instance_def getInstance_def new_host_def)

subsection \<open>Dispatch of \<open>updateConfig\<close>\<close>

lemma map_of_modify:
  "map_of (map (\<lambda>(k, x). if k = i then (k, f x) else (k, x)) xs) j =
     (if j = i then map_option f (map_of xs j) else map_of xs j)"
  by (induction xs) auto

lemma getInstance_modify:
  "getInstance (modify_instance i f m) j =
     (if j = i then map_option f (getInstance m j) else getInstance m j)"
  by (simp add: getInstance_def modify_instance_def map_of_modify)

lemma modify_instance_frame:
  "webWidgetContext (modify_instance i f m) = webWidgetContext m"
  "selectedInstanceId (modify_instance i f m) = selectedInstanceId m"
  "suppressStateEvents (modify_instance i f m) = suppressStateEvents m"
  "surfaces (modify_instance i f m) = surfaces m"
  "showDesktopWidgets (modify_instance i f m) = showDesktopWidgets m"
  "widgetState (modify_instance i f m) = widgetState m"
  "map fst (instances (modify_instance i f m)) = map fst (instances m)"
  by (simp_all add: modify_instance_def) (induction "instances m", auto)

lemma stateChanged_eq:
  "stateChanged env m =
     (if suppressStateEvents m then m else m\<lparr> widgetState := Some (fst (exportState env m)) \<rparr>)"
  using exportState_frame[of env m]
  by (cases "exportState env m") (simp add: stateChanged_def)

lemma stateChanged_frame:
  "instances (stateChanged env m) = instances m"
  "webWidgetContext (stateChanged env m) = webWidgetContext m"
  "selectedInstanceId (stateChanged env m) = selectedInstanceId m"
  "suppressStateEvents (stateChanged env m) = suppressStateEvents m"
  "surfaces (stateChanged env m) = surfaces m"
  "showDesktopWidgets (stateChanged env m) = showDesktopWidgets m"
  "getInstance (stateChanged env m) j = getInstance m j"
  by (simp_all add: stateChanged_eq getInstance_def)

lemma postMessage_ready:
  "is_object_arg msg \<Longrightarrow> webView h \<noteq> None \<Longrightarrow> \<not> destroyed h \<Longrightarrow>
   postMessage msg h = h\<lparr> evaluated := evaluated h @ [PostMessageScript msg] \<rparr>"
  by (simp add: postMessage_def postMessage_script_def evaluateScript_def)

lemma host_uri_webView: "prefix (''ding-widget://'' @ i @ ''/'') (host_uri h) \<Longrightarrow> webView h \<noteq> None"
  by (cases "webView h") (auto simp: host_uri_def)

lemma configChanged_is_object: "is_object_arg (configChanged_message inst mode)"
  by (simp add: configChanged_message_def is_object_arg_def)

text \<open>
  C6.  When an \<open>updateConfig\<close> message with an object-valued configuration is dispatched
  for a live instance whose surface URI has the prefix of its instance id, the
  configuration of the instance becomes the supplied one; a \<open>configChanged\<close> message that
  carries it is evaluated on the instance's widget surface, and is posted to the
  preferences host when the preferences window is open for that instance (delivered at
  once when that surface is ready); no other instance changes.
\<close>

theorem updateConfig_sets_and_broadcasts:
  assumes live: "getInstance m i = Some inst" "instanceId inst = i" "host inst = Some h"
      "\<not> destroyed h"
    and uri: "prefix (''ding-widget://'' @ i @ ''/'') (host_uri h)"
    and msg: "p_instanceId p = i" "p_type p = ''updateConfig''" "p_config p = Some cfg"
      "is_object_arg cfg"
  shows "\<exists>m' msg.
       dispatchWidgetMessage env p m = Returned () m' \<and>
       msg = configChanged_message (inst\<lparr> config := cfg \<rparr>) (p_mode p) \<and>
       get_prop msg ''type'' = Some (JStr ''configChanged'') \<and>
       get_prop msg ''instanceId'' = Some (JStr i) \<and>
       get_prop msg ''config'' = Some cfg \<and>
       getInstance m' i =
         Some (inst\<lparr> config := cfg,
                    host := Some (h\<lparr> evaluated := evaluated h @ [PostMessageScript msg] \<rparr>) \<rparr>) \<and>
       (\<forall>j. j \<noteq> i \<longrightarrow> getInstance m' j = getInstance m j) \<and>
       (\<forall>c ph. webWidgetContext m = Some c \<and> prefsHost c = Some ph \<and> prefsInstanceId c = Some i
          \<longrightarrow> webWidgetContext m' = Some (c\<lparr> prefsHost := Some (postMessage msg ph) \<rparr>) \<and>
              (webView ph \<noteq> None \<and> \<not> destroyed ph \<longrightarrow>
                 evaluated (postMessage msg ph) = evaluated ph @ [PostMessageScript msg])) \<and>
       (\<forall>c. webWidgetContext m = Some c \<and> (prefsHost c = None \<or> prefsInstanceId c \<noteq> Some i)
          \<longrightarrow> webWidgetContext m' = webWidgetContext m)"
proof -
  let ?msg = "configChanged_message (inst\<lparr> config := cfg \<rparr>) (p_mode p)"
  let ?m1 = "updateInstanceConfig env i cfg m"
  let ?m2 = "postToWidget i ?msg ?m1"
  let ?m3 = "postToPrefs i ?msg ?m2"
  have wv: "webView h \<noteq> None" using uri by (rule host_uri_webView)
  have obj: "is_object_arg ?msg" by (rule configChanged_is_object)
  have m1: "?m1 = stateChanged env (modify_instance i (\<lambda>x. x\<lparr> config := cfg \<rparr>) m)"
    using live(1) by (simp add: updateInstanceConfig_def)
  have g1: "getInstance ?m1 j = (if j = i then Some (inst\<lparr> config := cfg \<rparr>) else getInstance m j)" for j
    using live(1) unfolding m1 by (simp add: stateChanged_frame getInstance_modify)
  have c1: "webWidgetContext ?m1 = webWidgetContext m"
    unfolding m1 by (simp add: stateChanged_frame modify_instance_frame)
  have push: "pushConfigChangedForInstance i (p_mode p) ?m1 = ?m3"
    using g1[of i] by (simp add: pushConfigChangedForInstance_def postToBoth_def)
  have d: "dispatchWidgetMessage env p m = Returned () ?m3"
    using live msg uri push by (simp add: dispatchWidgetMessage_def Let_def)
  have g2: "getInstance ?m2 j =
      (if j = i then Some (inst\<lparr> config := cfg,
                    host := Some (h\<lparr> evaluated := evaluated h @ [PostMessageScript ?msg] \<rparr>) \<rparr>)
       else getInstance m j)" for j
    using g1[of j] g1[of i] live(3) postMessage_ready[OF obj wv live(4)]
    by (simp add: postToWidget_def getInstance_modify)
  have c2: "webWidgetContext ?m2 = webWidgetContext m"
    using c1 by (simp add: postToWidget_def modify_instance_frame)
  have g3: "getInstance ?m3 j = getInstance ?m2 j" for j
    by (simp add: postToPrefs_def getInstance_def split: option.splits)
  have c3a: "\<And>c ph. webWidgetContext m = Some c \<Longrightarrow> prefsHost c = Some ph \<Longrightarrow>
      prefsInstanceId c = Some i \<Longrightarrow>
      webWidgetContext ?m3 = Some (c\<lparr> prefsHost := Some (postMessage ?msg ph) \<rparr>)"
    using c2 by (simp add: postToPrefs_def)
  have c3b: "\<And>c. webWidgetContext m = Some c \<Longrightarrow> prefsHost c = None \<or> prefsInstanceId c \<noteq> Some i \<Longrightarrow>
      webWidgetContext ?m3 = webWidgetContext m"
    using c2 by (auto simp: postToPrefs_def split: option.splits)
  have p1: "get_prop ?msg ''type'' = Some (JStr ''configChanged'')"
    by (simp add: configChanged_message_def)
  have p2: "get_prop ?msg ''instanceId'' = Some (JStr i)"
    using live(2) by (simp add: configChanged_message_def)
  have p3: "get_prop ?msg ''config'' = Some cfg"
    using msg(4) by (simp add: configChanged_message_def config_or_empty_def is_object_arg_def)
  have e: "\<And>ph. webView ph \<noteq> None \<and> \<not> destroyed ph \<longrightarrow>
                 evaluated (postMessage ?msg ph) = evaluated ph @ [PostMessageScript ?msg]"
    using postMessage_ready[OF obj] by simp
  have gi: "getInstance ?m3 i =
         Some (inst\<lparr> config := cfg,
                    host := Some (h\<lparr> evaluated := evaluated h @ [PostMessageScript ?msg] \<rparr>) \<rparr>)"
    using g3[of i] g2[of i] by simp
  have go: "\<forall>j. j \<noteq> i \<longrightarrow> getInstance ?m3 j = getInstance m j"
    using g3 g2 by simp
  show ?thesis
    apply (rule exI[of _ ?m3])
    apply (rule exI[of _ ?msg])
    using d p1 p2 p3 gi go c3a c3b e by blast
qed

theorem updateConfig_sets_and_broadcasts_witness:
  "getInstance example_live_manager ''abc'' = Some example_instance \<and>
   host example_instance = Some example_ready_host \<and> \<not> destroyed example_ready_host \<and>
   prefix (''ding-widget://'' @ ''abc'' @ ''/'') (host_uri example_ready_host) \<and>
   is_object_arg (JObj [(''color'', JStr ''red'')]) \<and>
   (\<exists>m'. dispatchWidgetMessage example_env example_payload example_live_manager = Returned () m' \<and>
         map_option config (getInstance m' ''abc'') = Some (JObj [(''color'', JStr ''red'')]))"
proof -
  have a: "getInstance example_live_manager ''abc'' = Some example_instance"
    by (simp add: getInstance_def example_live_manager_def)
  have b: "instanceId example_instance = ''abc''" "host example_instance = Some example_ready_host"
    by (simp_all add: example_instance_def)
  have c: "\<not> destroyed example_ready_host" by code_simp
  have d: "prefix (''ding-widget://'' @ ''abc'' @ ''/'') (host_uri example_ready_host)" by code_simp
  have e: "p_instanceId example_payload = ''abc''" "p_type example_payload = ''updateConfig''"
    "p_config example_payload = Some (JObj [(''color'', JStr ''red'')])"
    by (simp_all add: example_payload_def)
  have f: "is_object_arg (JObj [(''color'', JStr ''red'')])" by (simp add: is_object_arg_def)
  from updateConfig_sets_and_broadcasts[OF a b(1) b(2) c d e(1) e(2) e(3) f, of example_env]
  obtain m' where "dispatchWidgetMessage example_env example_payload example_live_manager = Returned () m'"
    and "map_option config (getInstance m' ''abc'') = Some (JObj [(''color'', JStr ''red'')])"
    by auto
  then show ?thesis using a b(2) c d f by blast
qed

subsection \<open>Loading a document: what stays\<close>

lemma view_modify_same:
  assumes "\<And>x. isAddButton (f x) = isAddButton x" "\<And>x. export_entry (f x) = export_entry x"
  shows "persisted_view (modify_instance i f m) = persisted_view m"
  using assms by (simp add: persisted_view_def modify_instance_def case_prod_beta)

lemma view_simps:
  "persisted_view (m\<lparr> webWidgetContext := c \<rparr>) = persisted_view m"
  "persisted_view (m\<lparr> selectedInstanceId := s \<rparr>) = persisted_view m"
  "persisted_view (m\<lparr> suppressStateEvents := b \<rparr>) = persisted_view m"
  "persisted_view (m\<lparr> widgetState := d \<rparr>) = persisted_view m"
  by (simp_all add: persisted_view_def)

lemma view_stateChanged: "persisted_view (stateChanged env m) = persisted_view m"
  by (simp add: stateChanged_eq view_simps)

lemma export_entry_host: "export_entry (x\<lparr> host := h \<rparr>) = export_entry x"
  "export_entry (x\<lparr> actor := a \<rparr>) = export_entry x"
  "export_entry (x\<lparr> host := h, actor := a \<rparr>) = export_entry x"
  by (simp_all add: export_entry_def)

lemma view_pushPatch: "persisted_view (pushPatchtoTarget i patch m) = persisted_view m"
proof -
  have a: "persisted_view (modify_instance i (\<lambda>x. x\<lparr> host := h \<rparr>) m) = persisted_view m" for h
    by (rule view_modify_same) (simp_all add: export_entry_host)
  show ?thesis
    by (auto simp: pushPatchtoTarget_def Let_def a view_simps split: option.splits)
qed

lemma view_updateSelection_fold:
  "persisted_view
     (fold (\<lambda>i m'.
             case getInstance m' i of
               None \<Rightarrow> m'
             | Some inst \<Rightarrow>
                 if kind inst = ''html'' \<and> actor inst \<noteq> None \<and> host inst \<noteq> None \<and>
                    webWidgetContext m' \<noteq> None
                 then updateHtmlWidgetSelected i (selectedInstanceId m' = Some i) m'
                 else m') ks m) = persisted_view m"
proof (induction ks arbitrary: m)
  case Nil then show ?case by simp
next
  case (Cons k ks)
  show ?case unfolding fold_simps o_apply
    by (simp add: Cons.IH updateHtmlWidgetSelected_def view_pushPatch split: option.splits)
qed

lemma view_updateSelection: "persisted_view (updateWidgetsSelectionState m) = persisted_view m"
  unfolding updateWidgetsSelectionState_def by (rule view_updateSelection_fold)

lemma view_manager_close:
  "persisted_view (state_of (manager_closePreferencesIfAny m)) = persisted_view m"
  by (simp add: manager_closePreferencesIfAny_def view_simps split: option.splits result.splits)

lemma view_selectInstance:
  "persisted_view (state_of (selectInstance i m)) = persisted_view m"
proof -
  let ?first = "case selectedInstanceId m of
              None \<Rightarrow> Returned () m
            | Some old \<Rightarrow>
                if old \<noteq> [] \<and> Some old \<noteq> i \<and>
                   (case getInstance m old of None \<Rightarrow> False | Some oldInst \<Rightarrow> actor oldInst \<noteq> None)
                then manager_closePreferencesIfAny m
                else Returned () m"
  have f: "persisted_view (state_of ?first) = persisted_view m"
    by (simp add: view_manager_close split: option.splits)
  show ?thesis
  proof (cases ?first)
    case (Threw m1)
    then show ?thesis using f by (simp add: selectInstance_def)
  next
    case (Returned u m1)
    then have v1: "persisted_view m1 = persisted_view m" using f by simp
    have a: "persisted_view (updateWidgetsSelectionState (m1\<lparr> selectedInstanceId := s \<rparr>))
             = persisted_view m" for s
      using v1 by (simp add: view_updateSelection view_simps)
    show ?thesis using Returned a
      by (simp add: selectInstance_def view_manager_close)
  qed
qed

lemma view_ensureActor:
  "persisted_view (state_of (ensureInstanceActor env i m)) = persisted_view m"
proof -
  have a: "persisted_view (modify_instance i (\<lambda>x. x\<lparr> host := Some (new_host i (widgetId x) WidgetMode None),
                                 actor := Some False \<rparr>) m') = persisted_view m'" for m'
    by (rule view_modify_same) (simp_all add: export_entry_def)
  have b: "persisted_view (state_of (ensureWebWidgetContext env m)) = persisted_view m"
    by (simp add: ensureWebWidgetContext_def view_simps split: option.splits)
  show ?thesis using b
    by (cases "ensureWebWidgetContext env m")
       (simp_all add: ensureInstanceActor_def a split: option.splits)
qed

lemma view_position:
  "persisted_view (positionInstanceActor env i m) = persisted_view m"
proof -
  have a: "persisted_view (modify_instance i (\<lambda>x. x\<lparr> actor := Some True \<rparr>) m) = persisted_view m"
    by (rule view_modify_same) (simp_all add: export_entry_def)
  show ?thesis
    by (simp add: positionInstanceActor_def a view_stateChanged split: option.splits)
qed

subsection \<open>Loading a document: what changes\<close>

lemma map_set_new: "k \<notin> fst ` set kvs \<Longrightarrow> map_set k v kvs = kvs @ [(k, v)]"
  by (induction kvs) auto

lemma view_keys: "fst ` set (persisted_view m) = fst ` set (instances m)"
  by (force simp: persisted_view_def)

lemma map_of_map_values:
  "map_of (map (\<lambda>(k, x). (k, g x)) xs) i = map_option g (map_of xs i)"
  by (induction xs) auto

lemma view_map_of:
  "map_of (persisted_view m) i = map_option (\<lambda>x. (isAddButton x, export_entry x)) (getInstance m i)"
  unfolding persisted_view_def getInstance_def by (rule map_of_map_values)

lemma export_load_into:
  "export_entry (load_into e x) =
     (export_entry (load_new e))\<lparr> s_instanceId := s_instanceId (export_entry x) \<rparr>"
  by (simp add: export_entry_def load_into_def load_new_def)

lemma isAddButton_load_into: "isAddButton (load_into e x) = isAddButton x"
  by (simp add: load_into_def)

lemma view_load_step:
  "persisted_view
     (case getInstance m i of
        Some inst \<Rightarrow> modify_instance i (load_into e) m
      | None \<Rightarrow> m\<lparr> instances := map_set i (load_new e) (instances m) \<rparr>)
   = view_put i (export_entry (load_new e)) (persisted_view m)"
proof (cases "getInstance m i")
  case None
  then have n: "i \<notin> fst ` set (instances m)"
    by (simp add: getInstance_def map_of_eq_None_iff)
  then have n': "i \<notin> fst ` set (persisted_view m)" by (simp add: view_keys)
  have "persisted_view (m\<lparr> instances := map_set i (load_new e) (instances m) \<rparr>)
          = persisted_view m @ [(i, False, export_entry (load_new e))]"
    by (simp add: persisted_view_def map_set_new[OF n] load_new_def)
  then show ?thesis using None n' by (simp add: view_put_def)
next
  case (Some inst)
  then have n: "i \<in> fst ` set (instances m)"
    by (metis getInstance_def domI dom_map_of_conv_image_fst)
  have "persisted_view (modify_instance i (load_into e) m) =
        map (\<lambda>(k, b, w). if k = i
                then (k, b, (export_entry (load_new e))\<lparr> s_instanceId := s_instanceId w \<rparr>)
                else (k, b, w)) (persisted_view m)"
    by (simp add: persisted_view_def modify_instance_def case_prod_beta export_load_into
        isAddButton_load_into)
  then show ?thesis using Some n by (simp add: view_put_def view_keys)
qed

lemma view_loadEntry:
  "persisted_view (state_of (loadEntry env e m)) = view_load e (persisted_view m)"
proof (cases "entry_taken e")
  case False
  then show ?thesis by (auto simp: loadEntry_def view_load_def entry_taken_def)
next
  case True
  let ?i = "the_default [] (s_instanceId e)"
  let ?m1 = "case getInstance m ?i of
        Some inst \<Rightarrow> modify_instance ?i (load_into e) m
      | None \<Rightarrow> m\<lparr> instances := map_set ?i (load_new e) (instances m) \<rparr>"
  have v1: "persisted_view ?m1 = view_load e (persisted_view m)"
    using True by (simp add: view_load_step view_load_def)
  have l: "loadEntry env e m =
      (if the_default 0 (s_monitorIndex e) \<in> set (surfaces ?m1)
           then (case ensureInstanceActor env ?i ?m1 of
                   Threw m2 \<Rightarrow> Threw m2
                 | Returned _ m2 \<Rightarrow> Returned () (positionInstanceActor env ?i m2))
           else Returned () ?m1)"
    using True by (simp add: loadEntry_def entry_taken_def Let_def)
  show ?thesis
  proof (cases "the_default 0 (s_monitorIndex e) \<in> set (surfaces ?m1)")
    case False
    then show ?thesis unfolding l using v1 by simp
  next
    case s: True
    have "persisted_view (state_of (ensureInstanceActor env ?i ?m1)) = persisted_view ?m1"
      by (rule view_ensureActor)
    then show ?thesis unfolding l using s v1
      by (cases "ensureInstanceActor env ?i ?m1") (simp_all add: view_position)
  qed
qed

lemma view_fold_load:
  "fold_result (loadEntry env) es m = Returned u m' \<Longrightarrow>
   persisted_view m' = fold view_load es (persisted_view m)"
proof (induction es arbitrary: m)
  case Nil then show ?case by simp
next
  case (Cons e es)
  show ?case
  proof (cases "loadEntry env e m")
    case (Threw m1)
    then show ?thesis using Cons.prems by simp
  next
    case (Returned v m1)
    then have "fold_result (loadEntry env) es m1 = Returned u m'" using Cons.prems by simp
    from Cons.IH[OF this] view_loadEntry[of env e m] Returned show ?thesis by simp
  qed
qed

lemma view_removeActor:
  "removeActor i m = Returned u m' \<Longrightarrow>
   persisted_view m' = filter (\<lambda>kv. fst kv \<noteq> i) (persisted_view m)"
proof (cases "getInstance m i")
  case None
  assume "removeActor i m = Returned u m'"
  then have "m' = m" using None by (simp add: removeActor_def)
  moreover have "i \<notin> fst ` set (persisted_view m)"
    using None by (simp add: view_keys getInstance_def map_of_eq_None_iff)
  ultimately show ?thesis
    by (metis (mono_tags, lifting) filter_True rev_image_eqI)
next
  case (Some inst)
  assume "removeActor i m = Returned u m'"
  then have "m' = m\<lparr> instances := map_delete i (instances m) \<rparr>"
    using Some by (auto simp: removeActor_def split: result.splits)
  then show ?thesis
    by (simp add: persisted_view_def map_delete_def filter_map o_def case_prod_beta)
qed

lemma view_removeUnseen:
  "removeUnseen seen i m = Returned u m' \<Longrightarrow>
   persisted_view m' = view_remove seen i (persisted_view m)"
proof -
  assume r: "removeUnseen seen i m = Returned u m'"
  have flag: "(case map_of (persisted_view m) i of Some (b, w) \<Rightarrow> b | None \<Rightarrow> False)
              = (case getInstance m i of None \<Rightarrow> False | Some inst \<Rightarrow> isAddButton inst)"
    by (simp add: view_map_of split: option.splits)
  show ?thesis
  proof (cases "(case getInstance m i of None \<Rightarrow> False | Some inst \<Rightarrow> isAddButton inst) \<or> i \<in> set seen")
    case True
    then have "m' = m" using r by (auto simp: removeUnseen_def split: if_splits)
    then show ?thesis using True flag by (auto simp: view_remove_def)
  next
    case False
    then have "removeActor i m = Returned u m'" using r by (auto simp: removeUnseen_def)
    from view_removeActor[OF this] False flag show ?thesis by (auto simp: view_remove_def)
  qed
qed

lemma view_fold_remove:
  "fold_result (removeUnseen seen) ks m = Returned u m' \<Longrightarrow>
   persisted_view m' = fold (view_remove seen) ks (persisted_view m)"
proof (induction ks arbitrary: m)
  case Nil then show ?case by simp
next
  case (Cons k ks)
  show ?case
  proof (cases "removeUnseen seen k m")
    case (Threw m1)
    then show ?thesis using Cons.prems by simp
  next
    case (Returned v m1)
    then have "fold_result (removeUnseen seen) ks m1 = Returned u m'" using Cons.prems by simp
    from Cons.IH[OF this] view_removeUnseen[OF Returned] show ?thesis by simp
  qed
qed

text \<open>The view after a \<open>loadState\<close> that returned.\<close>

lemma view_loadState:
  assumes "loadState env (Some doc) m = Returned u m'" "s_instances doc = Some es"
  shows "\<exists>D. D = fold view_load es (persisted_view m) \<and>
             persisted_view m' = fold (view_remove (seen_ids es)) (map fst D) D"
proof -
  let ?m0 = "m\<lparr> suppressStateEvents := True \<rparr>"
  from assms obtain v1 m1 where l1: "fold_result (loadEntry env) es ?m0 = Returned v1 m1"
    by (auto simp: loadState_def Let_def split: result.splits)
  from assms l1 obtain v2 m2 where
    l2: "fold_result (removeUnseen (seen_ids es)) (map fst (instances m1)) m1 = Returned v2 m2"
    by (auto simp: loadState_def Let_def split: result.splits)
  from assms l1 l2 obtain v3 m3 s where l3: "selectInstance s m2 = Returned v3 m3"
    and m': "m' = m3\<lparr> suppressStateEvents := suppressStateEvents m \<rparr>"
    by (auto simp: loadState_def Let_def split: result.splits)
  let ?D = "fold view_load es (persisted_view m)"
  have d1: "persisted_view m1 = ?D" using view_fold_load[OF l1] by (simp add: view_simps)
  have k: "map fst (instances m1) = map fst (persisted_view m1)"
    by (simp add: persisted_view_def case_prod_beta)
  have d2: "persisted_view m2 = fold (view_remove (seen_ids es)) (map fst ?D) ?D"
    using view_fold_remove[OF l2] d1 k by simp
  have d3: "persisted_view m3 = persisted_view m2"
    using view_selectInstance[of s m2] l3 by simp
  show ?thesis using d2 d3 m' by (simp add: view_simps)
qed

subsection \<open>The view as a list\<close>

lemma view_remove_filter:
  assumes "distinct (map fst D)"
  shows "view_remove seen i D = filter (\<lambda>(k, b, w). k \<noteq> i \<or> b \<or> k \<in> set seen) D"
proof (cases "(case map_of D i of Some (b, w) \<Rightarrow> b | None \<Rightarrow> False) \<or> i \<in> set seen")
  case True
  have "\<forall>x \<in> set D. (\<lambda>(k, b, w). k \<noteq> i \<or> b \<or> k \<in> set seen) x"
  proof
    fix x assume x: "x \<in> set D"
    obtain k b w where kbw: "x = (k, b, w)" by (cases x) auto
    then have "map_of D k = Some (b, w)" using assms x by simp
    then show "(\<lambda>(k, b, w). k \<noteq> i \<or> b \<or> k \<in> set seen) x" using True kbw by auto
  qed
  then have "filter (\<lambda>(k, b, w). k \<noteq> i \<or> b \<or> k \<in> set seen) D = D" by (simp add: filter_id_conv)
  then show ?thesis using True by (simp add: view_remove_def)
next
  case False
  have "\<forall>x \<in> set D. (\<lambda>(k, b, w). k \<noteq> i \<or> b \<or> k \<in> set seen) x = (fst x \<noteq> i)"
  proof
    fix x assume x: "x \<in> set D"
    obtain k b w where kbw: "x = (k, b, w)" by (cases x) auto
    then have "map_of D k = Some (b, w)" using assms x by simp
    then show "(\<lambda>(k, b, w). k \<noteq> i \<or> b \<or> k \<in> set seen) x = (fst x \<noteq> i)"
      using False kbw by auto
  qed
  then have "filter (\<lambda>(k, b, w). k \<noteq> i \<or> b \<or> k \<in> set seen) D = filter (\<lambda>kv. fst kv \<noteq> i) D"
    by (metis (mono_tags, lifting) filter_cong)
  then show ?thesis using False by (simp add: view_remove_def)
qed

lemma view_remove_fold:
  "distinct (map fst D) \<Longrightarrow>
   fold (view_remove seen) ks D = filter (\<lambda>(k, b, w). k \<notin> set ks \<or> b \<or> k \<in> set seen) D"
proof (induction ks arbitrary: D)
  case Nil then show ?case by simp
next
  case (Cons i ks)
  let ?D1 = "filter (\<lambda>(k, b, w). k \<noteq> i \<or> b \<or> k \<in> set seen) D"
  have d1: "distinct (map fst ?D1)" using Cons.prems by (simp add: distinct_map_filter)
  have "fold (view_remove seen) (i # ks) D = fold (view_remove seen) ks ?D1"
    by (simp add: view_remove_filter[OF Cons.prems])
  also have "\<dots> = filter (\<lambda>(k, b, w). k \<notin> set ks \<or> b \<or> k \<in> set seen) ?D1"
    by (rule Cons.IH[OF d1])
  also have "\<dots> = filter (\<lambda>(k, b, w). k \<notin> set (i # ks) \<or> b \<or> k \<in> set seen) D"
    by (auto intro: filter_cong)
  finally show ?case .
qed

lemma view_remove_all:
  assumes "distinct (map fst D)"
  shows "fold (view_remove seen) (map fst D) D = filter (\<lambda>(k, b, w). b \<or> k \<in> set seen) D"
proof -
  have "filter (\<lambda>(k, b, w). k \<notin> set (map fst D) \<or> b \<or> k \<in> set seen) D
        = filter (\<lambda>(k, b, w). b \<or> k \<in> set seen) D"
    by (rule filter_cong) force+
  then show ?thesis using view_remove_fold[OF assms, of seen "map fst D"] by simp
qed

lemma view_put_other: "k \<noteq> i \<Longrightarrow> map_of (view_put i v D) k = map_of D k"
proof (cases "i \<in> fst ` set D")
  case True
  assume "k \<noteq> i"
  then have "map_of (map (\<lambda>(k, b, w). if k = i then (k, b, v\<lparr> s_instanceId := s_instanceId w \<rparr>)
                             else (k, b, w)) D) k = map_of D k"
    by (induction D) auto
  then show ?thesis using True by (simp add: view_put_def)
next
  case False
  assume "k \<noteq> i"
  then show ?thesis using False by (simp add: view_put_def map_add_def split: option.splits)
qed

lemma view_put_keys:
  "map fst (view_put i v D) = (if i \<in> fst ` set D then map fst D else map fst D @ [i])"
  by (auto simp: view_put_def case_prod_beta intro: map_cong)

lemma view_put_at:
  assumes "keyed D" "s_instanceId v = Some i" "\<forall>b w. map_of D i = Some (b, w) \<longrightarrow> \<not> b"
  shows "map_of (view_put i v D) i = Some (False, v)"
proof (cases "i \<in> fst ` set D")
  case False
  then have "map_of D i = None" by (simp add: map_of_eq_None_iff)
  then show ?thesis using False by (simp add: view_put_def map_add_def)
next
  case True
  have "keyed D \<Longrightarrow> \<forall>b w. map_of D i = Some (b, w) \<longrightarrow> \<not> b \<Longrightarrow> i \<in> fst ` set D \<Longrightarrow>
        map_of (map (\<lambda>(k, b, w). if k = i then (k, b, v\<lparr> s_instanceId := s_instanceId w \<rparr>)
                             else (k, b, w)) D) i = Some (False, v)"
  proof (induction D)
    case Nil then show ?case by simp
  next
    case (Cons x D)
    obtain k b w where x: "x = (k, b, w)" by (cases x) auto
    show ?case
    proof (cases "k = i")
      case True
      then have "\<not> b" "s_instanceId w = Some i" using Cons.prems x by (auto simp: keyed_def)
      then show ?thesis using True x assms(2) by simp
    next
      case False
      then have "keyed D" "\<forall>b w. map_of D i = Some (b, w) \<longrightarrow> \<not> b" "i \<in> fst ` set D"
        using Cons.prems x by (auto simp: keyed_def)
      from Cons.IH[OF this] False x show ?thesis by simp
    qed
  qed
  then show ?thesis using assms True by (simp add: view_put_def)
qed

lemma view_put_keyed:
  assumes "keyed D" "s_instanceId v = Some i"
  shows "keyed (view_put i v D)"
  using assms by (auto simp: view_put_def keyed_def split: if_splits)

lemma view_put_distinct: "distinct (map fst D) \<Longrightarrow> distinct (map fst (view_put i v D))"
  by (simp add: view_put_keys)

lemma truthy_string_some: "truthy_string s \<Longrightarrow> Some (the_default [] s) = s"
  by (cases s) auto

lemma export_load_new_wf: "wf_entry e \<Longrightarrow> export_entry (load_new e) = with_kind e"
  by (cases e)
     (auto simp: wf_entry_def export_entry_def load_new_def with_kind_def entry_config_def
        truthy_string_some split: option.splits)

lemma wf_entry_id: "wf_entry e \<Longrightarrow> s_instanceId e = Some (the_default [] (s_instanceId e)) \<and> entry_taken e"
  by (cases "s_instanceId e") (auto simp: wf_entry_def entry_taken_def)

lemma view_load_untouched:
  "k \<notin> (\<lambda>e. the_default [] (s_instanceId e)) ` set es \<Longrightarrow>
   map_of (fold view_load es D) k = map_of D k"
proof (induction es arbitrary: D)
  case Nil then show ?case by simp
next
  case (Cons e es)
  have "map_of (view_load e D) k = map_of D k"
    using Cons.prems by (auto simp: view_load_def view_put_other)
  then show ?case using Cons by simp
qed

lemma view_load_all:
  assumes "distinct (map fst D)" "keyed D" "wf_entries es"
    and "\<forall>e \<in> set es. \<forall>b w. map_of D (the_default [] (s_instanceId e)) = Some (b, w) \<longrightarrow> \<not> b"
  shows "distinct (map fst (fold view_load es D)) \<and>
         (\<forall>e \<in> set es. map_of (fold view_load es D) (the_default [] (s_instanceId e))
                          = Some (False, with_kind e))"
  using assms
proof (induction es arbitrary: D)
  case Nil then show ?case by simp
next
  case (Cons e es)
  let ?i = "the_default [] (s_instanceId e)"
  let ?v = "export_entry (load_new e)"
  let ?D1 = "view_load e D"
  have wf: "wf_entry e" "wf_entries es" and ni: "s_instanceId e \<notin> set (map s_instanceId es)"
    using Cons.prems(3) by (auto simp: wf_entries_def)
  have id: "s_instanceId e = Some ?i" "entry_taken e" using wf_entry_id[OF wf(1)] by simp_all
  have v: "?v = with_kind e" by (rule export_load_new_wf[OF wf(1)])
  have vi: "s_instanceId ?v = Some ?i" using id(1) unfolding v by (simp add: with_kind_def)
  have D1: "?D1 = view_put ?i ?v D" using id(2) by (simp add: view_load_def)
  have others: "?i \<notin> (\<lambda>e. the_default [] (s_instanceId e)) ` set es"
  proof
    assume "?i \<in> (\<lambda>e. the_default [] (s_instanceId e)) ` set es"
    then obtain e' where e': "e' \<in> set es" "the_default [] (s_instanceId e') = ?i" by auto
    then have "wf_entry e'" using wf(2) by (simp add: wf_entries_def list_all_iff)
    then have "s_instanceId e' = Some ?i" using wf_entry_id[of e'] e'(2) by simp
    then have "s_instanceId e \<in> s_instanceId ` set es" using id(1) e'(1) by (metis image_eqI)
    then show False using ni by simp
  qed
  have d1: "distinct (map fst ?D1)" unfolding D1 by (rule view_put_distinct[OF Cons.prems(1)])
  have k1: "keyed ?D1" unfolding D1 by (rule view_put_keyed[OF Cons.prems(2) vi])
  have c1: "\<forall>e' \<in> set es. \<forall>b w. map_of ?D1 (the_default [] (s_instanceId e')) = Some (b, w) \<longrightarrow> \<not> b"
  proof (intro ballI)
    fix e' assume e': "e' \<in> set es"
    then have "the_default [] (s_instanceId e') \<noteq> ?i" using others by (metis image_eqI)
    then have "map_of ?D1 (the_default [] (s_instanceId e')) = map_of D (the_default [] (s_instanceId e'))"
      unfolding D1 by (rule view_put_other)
    moreover have "\<forall>b w. map_of D (the_default [] (s_instanceId e')) = Some (b, w) \<longrightarrow> \<not> b"
      using Cons.prems(4) e' by (meson list.set_intros(2))
    ultimately show "\<forall>b w. map_of ?D1 (the_default [] (s_instanceId e')) = Some (b, w) \<longrightarrow> \<not> b"
      by presburger
  qed
  note ih = Cons.IH[OF d1 k1 wf(2) c1]
  have here: "map_of (fold view_load es ?D1) ?i = Some (False, with_kind e)"
  proof -
    have "map_of (fold view_load es ?D1) ?i = map_of ?D1 ?i"
      by (rule view_load_untouched[OF others])
    also have "\<dots> = Some (False, ?v)"
      unfolding D1 using Cons.prems(2) vi Cons.prems(4) by (intro view_put_at) auto
    finally show ?thesis using v by simp
  qed
  have "fold view_load (e # es) D = fold view_load es ?D1" by simp
  then show ?case using ih here by (metis set_ConsD)
qed

subsection \<open>Loading a document: no exception\<close>

lemma destroy_opt_can: "can_destroy ho \<Longrightarrow> \<exists>ho'. destroy_opt ho = Returned () ho'"
  by (cases ho) (auto simp: can_destroy_def destroy_def Let_def)

lemma can_destroy_patch: "can_destroy (Some (setHostStatePatch p h)) = can_destroy (Some h)"
  by (simp add: can_destroy_def setHostStatePatch_def sendHostStatePatch_def evaluateScript_def)

lemma context_ready_modify: "context_ready env (modify_instance i f m) = context_ready env m"
  by (simp add: context_ready_def modify_instance_frame)

lemma context_ready_pushPatch: "context_ready env (pushPatchtoTarget i p m) = context_ready env m"
  by (auto simp: pushPatchtoTarget_def Let_def context_ready_def modify_instance_frame
        can_destroy_patch split: option.splits)

lemma context_ready_updateSelection_fold:
  "context_ready env
     (fold (\<lambda>i m'.
             case getInstance m' i of
               None \<Rightarrow> m'
             | Some inst \<Rightarrow>
                 if kind inst = ''html'' \<and> actor inst \<noteq> None \<and> host inst \<noteq> None \<and>
                    webWidgetContext m' \<noteq> None
                 then updateHtmlWidgetSelected i (selectedInstanceId m' = Some i) m'
                 else m') ks m) = context_ready env m"
proof (induction ks arbitrary: m)
  case Nil then show ?case by simp
next
  case (Cons k ks)
  show ?case unfolding fold_simps o_apply
    by (simp add: Cons.IH updateHtmlWidgetSelected_def context_ready_pushPatch split: option.splits)
qed

lemma context_ready_updateSelection:
  "context_ready env (updateWidgetsSelectionState m) = context_ready env m"
  unfolding updateWidgetsSelectionState_def by (rule context_ready_updateSelection_fold)

lemma closeIfAny_can:
  assumes "can_destroy (prefsHost c)"
  shows "\<exists>c'. closePreferencesIfAny c = Returned () c' \<and> can_destroy (prefsHost c')"
proof -
  from destroy_opt_can[OF assms] obtain ho' where "destroy_opt (prefsHost c) = Returned () ho'" by blast
  then show ?thesis using assms
    by (auto simp: closePreferencesIfAny_def can_destroy_def split: option.splits)
qed

lemma manager_close_returns:
  assumes "context_ready env m"
  shows "\<exists>m'. manager_closePreferencesIfAny m = Returned () m' \<and> context_ready env m'"
proof (cases "webWidgetContext m")
  case None
  then show ?thesis using assms by (simp add: manager_closePreferencesIfAny_def)
next
  case (Some c)
  then have "can_destroy (prefsHost c)" using assms by (simp add: context_ready_def)
  from closeIfAny_can[OF this] obtain c' where
    "closePreferencesIfAny c = Returned () c'" "can_destroy (prefsHost c')" by blast
  then show ?thesis using Some by (simp add: manager_closePreferencesIfAny_def context_ready_def)
qed

lemma selectInstance_returns:
  assumes "context_ready env m"
  shows "\<exists>m'. selectInstance i m = Returned () m'"
proof -
  let ?first = "case selectedInstanceId m of
              None \<Rightarrow> Returned () m
            | Some old \<Rightarrow>
                if old \<noteq> [] \<and> Some old \<noteq> i \<and>
                   (case getInstance m old of None \<Rightarrow> False | Some oldInst \<Rightarrow> actor oldInst \<noteq> None)
                then manager_closePreferencesIfAny m
                else Returned () m"
  have "\<exists>m1. ?first = Returned () m1 \<and> context_ready env m1"
    using manager_close_returns[OF assms] assms by (auto split: option.splits)
  then obtain m1 where f: "?first = Returned () m1" and r: "context_ready env m1" by blast
  have "context_ready env (m1\<lparr> selectedInstanceId := None \<rparr>)"
    using r by (simp add: context_ready_def)
  then have "context_ready env (updateWidgetsSelectionState (m1\<lparr> selectedInstanceId := None \<rparr>))"
    by (simp only: context_ready_updateSelection)
  from manager_close_returns[OF this] obtain m2 where
    c: "manager_closePreferencesIfAny (updateWidgetsSelectionState (m1\<lparr> selectedInstanceId := None \<rparr>))
          = Returned () m2" by blast
  show ?thesis using f c by (simp add: selectInstance_def)
qed

lemma removable_modify_seen:
  "i \<in> set seen \<Longrightarrow> removable seen m \<Longrightarrow> removable seen (modify_instance i f m)"
  by (auto simp: removable_def modify_instance_def split: if_splits)

lemma set_map_set: "set (map_set k v kvs) \<subseteq> insert (k, v) (set kvs)"
  by (induction kvs) (auto split: if_splits)

lemma removable_map_set:
  assumes "i \<in> set seen" "removable seen m"
  shows "removable seen (m\<lparr> instances := map_set i v (instances m) \<rparr>)"
  using assms set_map_set[of i v "instances m"] by (fastforce simp: removable_def)

lemma removable_context: "removable seen (m\<lparr> webWidgetContext := c \<rparr>) = removable seen m"
  by (simp add: removable_def)

lemma ensureActor_returns:
  assumes "getInstance m i \<noteq> None" "i \<in> set seen" "removable seen m" "context_ready env m"
  shows "\<exists>m'. ensureInstanceActor env i m = Returned () m' \<and> removable seen m' \<and> context_ready env m'"
proof -
  have "\<exists>m1. ensureWebWidgetContext env m = Returned () m1 \<and> removable seen m1 \<and>
              context_ready env m1 \<and> getInstance m1 i = getInstance m i \<and>
              showDesktopWidgets m1 = showDesktopWidgets m"
  proof (cases "webWidgetContext m")
    case (Some c)
    then show ?thesis using assms(3,4) by (simp add: ensureWebWidgetContext_def)
  next
    case None
    then obtain c where c: "new_context env = Some c" using assms(4)
      by (auto simp: context_ready_def)
    then have "can_destroy (prefsHost c)"
      by (auto simp: new_context_def can_destroy_def split: option.splits)
    then show ?thesis using None c assms(3)
      by (simp add: ensureWebWidgetContext_def removable_context context_ready_def
            getInstance_def)
  qed
  then obtain m1 where e: "ensureWebWidgetContext env m = Returned () m1"
    and r: "removable seen m1" and c: "context_ready env m1" by blast
  show ?thesis using assms(1,2,3,4) e r c
    by (auto simp: ensureInstanceActor_def removable_modify_seen context_ready_modify)
qed

lemma position_keeps:
  assumes "i \<in> set seen" "removable seen m" "context_ready env m"
  shows "removable seen (positionInstanceActor env i m) \<and> context_ready env (positionInstanceActor env i m)"
proof -
  have a: "removable seen (stateChanged env m)" using assms(2)
    by (simp add: removable_def stateChanged_frame)
  have b: "context_ready env (stateChanged env m)" using assms(3)
    by (simp add: context_ready_def stateChanged_frame)
  show ?thesis using assms a b
    by (simp add: positionInstanceActor_def removable_modify_seen context_ready_modify
          split: option.splits)
qed

lemma loadEntry_returns:
  assumes s: "entry_taken e \<longrightarrow> the_default [] (s_instanceId e) \<in> set seen"
    and r: "removable seen m" and c: "context_ready env m"
  shows "\<exists>m'. loadEntry env e m = Returned () m' \<and> removable seen m' \<and> context_ready env m'"
proof (cases "entry_taken e")
  case False
  then show ?thesis using r c by (auto simp: loadEntry_def entry_taken_def)
next
  case True
  let ?i = "the_default [] (s_instanceId e)"
  let ?m1 = "case getInstance m ?i of
        Some inst \<Rightarrow> modify_instance ?i (load_into e) m
      | None \<Rightarrow> m\<lparr> instances := map_set ?i (load_new e) (instances m) \<rparr>"
  have i: "?i \<in> set seen" using s True by simp
  have g: "getInstance ?m1 ?i \<noteq> None"
  proof (cases "getInstance m ?i")
    case None
    then show ?thesis by (simp add: getInstance_def map_of_map_set)
  next
    case (Some x)
    then show ?thesis by (simp add: getInstance_modify)
  qed
  have r1: "removable seen ?m1"
    using r i by (simp add: removable_modify_seen removable_map_set split: option.splits)
  have c1: "context_ready env ?m1"
  proof (cases "getInstance m ?i")
    case None
    then show ?thesis using c by (simp add: context_ready_def)
  next
    case (Some x)
    then show ?thesis using c by (simp add: context_ready_modify)
  qed
  have l: "loadEntry env e m =
      (if the_default 0 (s_monitorIndex e) \<in> set (surfaces ?m1)
       then (case ensureInstanceActor env ?i ?m1 of
               Threw m2 \<Rightarrow> Threw m2
             | Returned _ m2 \<Rightarrow> Returned () (positionInstanceActor env ?i m2))
       else Returned () ?m1)"
    using True by (simp add: loadEntry_def entry_taken_def Let_def)
  from ensureActor_returns[OF g i r1 c1] obtain m2 where
    e: "ensureInstanceActor env ?i ?m1 = Returned () m2" "removable seen m2" "context_ready env m2"
    by blast
  from position_keeps[OF i e(2) e(3)]
  show ?thesis unfolding l using e(1) r1 c1 by simp
qed

lemma fold_load_returns:
  assumes "\<forall>e \<in> set es. entry_taken e \<longrightarrow> the_default [] (s_instanceId e) \<in> set seen"
    and "removable seen m" "context_ready env m"
  shows "\<exists>m'. fold_result (loadEntry env) es m = Returned () m' \<and> removable seen m' \<and>
              context_ready env m'"
  using assms
proof (induction es arbitrary: m)
  case Nil then show ?case by simp
next
  case (Cons e es)
  from loadEntry_returns[of e seen m env] Cons.prems obtain m1 where
    l: "loadEntry env e m = Returned () m1" "removable seen m1" "context_ready env m1" by auto
  from Cons.IH[OF _ l(2) l(3)] Cons.prems(1) show ?case using l(1) by simp
qed

lemma removeActor_returns:
  assumes "removable seen m" "context_ready env m"
    and "\<forall>x. getInstance m i = Some x \<longrightarrow> can_destroy (host x)"
  shows "\<exists>m'. removeActor i m = Returned () m' \<and> removable seen m' \<and> context_ready env m'"
proof (cases "getInstance m i")
  case None
  then show ?thesis using assms by (simp add: removeActor_def)
next
  case (Some x)
  then have "can_destroy (host x)" using assms(3) by simp
  from destroy_opt_can[OF this] obtain ho' where d: "destroy_opt (host x) = Returned () ho'" by blast
  have "removable seen (m\<lparr> instances := map_delete i (instances m) \<rparr>)"
    using assms(1) by (auto simp: removable_def map_delete_def)
  moreover have "context_ready env (m\<lparr> instances := map_delete i (instances m) \<rparr>)"
    using assms(2) by (simp add: context_ready_def)
  ultimately show ?thesis using Some d by (simp add: removeActor_def)
qed

lemma removeUnseen_returns:
  assumes "removable seen m" "context_ready env m"
  shows "\<exists>m'. removeUnseen seen i m = Returned () m' \<and> removable seen m' \<and> context_ready env m'"
proof (cases "(case getInstance m i of None \<Rightarrow> False | Some inst \<Rightarrow> isAddButton inst) \<or> i \<in> set seen")
  case True
  then show ?thesis using assms by (auto simp: removeUnseen_def)
next
  case False
  have "\<forall>x. getInstance m i = Some x \<longrightarrow> can_destroy (host x)"
  proof (intro allI impI)
    fix x assume g: "getInstance m i = Some x"
    then have "(i, x) \<in> set (instances m)" by (simp add: getInstance_def map_of_SomeD)
    moreover have "\<not> isAddButton x" "i \<notin> set seen" using False g by simp_all
    ultimately show "can_destroy (host x)" using assms(1) by (auto simp: removable_def)
  qed
  from removeActor_returns[OF assms this] show ?thesis using False by (simp add: removeUnseen_def)
qed

lemma fold_remove_returns:
  assumes "removable seen m" "context_ready env m"
  shows "\<exists>m'. fold_result (removeUnseen seen) ks m = Returned () m' \<and> context_ready env m'"
  using assms
proof (induction ks arbitrary: m)
  case Nil then show ?case by simp
next
  case (Cons k ks)
  from removeUnseen_returns[OF Cons.prems, of k] obtain m1 where
    l: "removeUnseen seen k m = Returned () m1" "removable seen m1" "context_ready env m1" by blast
  from Cons.IH[OF l(2) l(3)] show ?case using l(1) by simp
qed

lemma loadState_returns:
  assumes "s_instances doc = Some es" "removable (seen_ids es) m" "context_ready env m"
  shows "\<exists>m'. loadState env (Some doc) m = Returned () m'"
proof -
  let ?m0 = "m\<lparr> suppressStateEvents := True \<rparr>"
  have r0: "removable (seen_ids es) ?m0" using assms(2) by (simp add: removable_def)
  have c0: "context_ready env ?m0" using assms(3) by (simp add: context_ready_def)
  have s: "\<forall>e \<in> set es. entry_taken e \<longrightarrow> the_default [] (s_instanceId e) \<in> set (seen_ids es)"
    by (auto simp: seen_ids_def entry_taken_def)
  from fold_load_returns[OF s r0 c0] obtain m1 where
    a: "fold_result (loadEntry env) es ?m0 = Returned () m1" "removable (seen_ids es) m1"
       "context_ready env m1" by blast
  from fold_remove_returns[OF a(2) a(3), of "map fst (instances m1)"] obtain m2 where
    b: "fold_result (removeUnseen (seen_ids es)) (map fst (instances m1)) m1 = Returned () m2"
       "context_ready env m2" by blast
  from selectInstance_returns[OF b(2)] obtain m3 where
    c: "selectInstance (if truthy_string (selectedInstanceId m) \<and>
                           getInstance m2 (the_default [] (selectedInstanceId m)) \<noteq> None
                        then selectedInstanceId m else None) m2 = Returned () m3" by blast
  show ?thesis using assms(1) a(1) b(1) c by (simp add: loadState_def Let_def)
qed

subsection \<open>Loading and exporting\<close>

lemma mset_eq_of_set_eq:
  "distinct xs \<Longrightarrow> distinct ys \<Longrightarrow> set xs = set ys \<Longrightarrow> mset xs = mset ys"
  by (simp add: set_eq_iff_mset_eq_distinct)

lemma export_via_view_list:
  "map export_entry (filter (\<lambda>inst. \<not> isAddButton inst) (map snd xs))
     = map (\<lambda>kv. snd (snd kv))
         (filter (\<lambda>kv. \<not> fst (snd kv)) (map (\<lambda>(k, x). (k, isAddButton x, export_entry x)) xs))"
  by (induction xs) (auto simp: case_prod_beta)

lemma export_via_view:
  "map export_entry (filter (\<lambda>inst. \<not> isAddButton inst) (map snd (instances m)))
     = map (\<lambda>kv. snd (snd kv)) (filter (\<lambda>kv. \<not> fst (snd kv)) (persisted_view m))"
  unfolding persisted_view_def by (rule export_via_view_list)

lemma wf_seen_ids:
  assumes "wf_entries es"
  shows "seen_ids es = map (\<lambda>e. the_default [] (s_instanceId e)) es"
    and "distinct (map (\<lambda>e. the_default [] (s_instanceId e)) es)"
proof -
  have t: "\<forall>e \<in> set es. entry_taken e" using assms wf_entry_id
    by (auto simp: wf_entries_def list_all_iff)
  then have "filter (\<lambda>e. truthy_string (s_instanceId e) \<and> truthy_string (s_widgetId e)) es = es"
    by (simp add: entry_taken_def filter_id_conv)
  then show "seen_ids es = map (\<lambda>e. the_default [] (s_instanceId e)) es"
    by (simp add: seen_ids_def)
  have "map s_instanceId es = map Some (map (\<lambda>e. the_default [] (s_instanceId e)) es)"
    using assms wf_entry_id by (auto simp: wf_entries_def list_all_iff)
  moreover have "distinct (map s_instanceId es)" using assms by (simp add: wf_entries_def)
  ultimately have "distinct (map Some (map (\<lambda>e. the_default [] (s_instanceId e)) es))"
    by (simp only:)
  then show "distinct (map (\<lambda>e. the_default [] (s_instanceId e)) es)"
    by (rule distinct_map[THEN iffD1, THEN conjunct1])
qed

lemma loaded_view_entries:
  assumes d: "distinct (map fst F)"
    and l: "\<forall>e \<in> set es. map_of F (the_default [] (s_instanceId e)) = Some (False, with_kind e)"
    and ids: "distinct (map (\<lambda>e. the_default [] (s_instanceId e)) es)"
  shows "mset (map (\<lambda>kv. snd (snd kv))
           (filter (\<lambda>kv. \<not> fst (snd kv))
              (filter (\<lambda>(k, b, w). b \<or> k \<in> (\<lambda>e. the_default [] (s_instanceId e)) ` set es) F)))
         = mset (map with_kind es)"
proof -
  let ?id = "\<lambda>e. the_default [] (s_instanceId e)"
  let ?L = "filter (\<lambda>kv. \<not> fst (snd kv)) (filter (\<lambda>(k, b, w). b \<or> k \<in> ?id ` set es) F)"
  let ?R = "map (\<lambda>e. (?id e, False, with_kind e)) es"
  have dF: "distinct F" using d by (rule distinct_map[THEN iffD1, THEN conjunct1])
  have dL: "distinct ?L" using dF by simp
  have dR: "distinct ?R"
  proof -
    have "map fst ?R = map ?id es" by (simp add: o_def)
    then have "distinct (map fst ?R)" using ids by (simp only:)
    then show ?thesis by (rule distinct_map[THEN iffD1, THEN conjunct1])
  qed
  have "set ?L = set ?R"
  proof (intro set_eqI iffI)
    fix x assume xin: "x \<in> set ?L"
    obtain k b w where x: "x = (k, b, w)" by (cases x) auto
    from xin have xF: "(k, b, w) \<in> set F" and nb: "\<not> b" and "b \<or> k \<in> ?id ` set es"
      unfolding x by auto
    then obtain e where e: "e \<in> set es" "k = ?id e" by auto
    have "map_of F k = Some (b, w)" using d xF by simp
    then have "(b, w) = (False, with_kind e)" using l e by simp
    then show "x \<in> set ?R" using x e by force
  next
    fix x assume "x \<in> set ?R"
    then obtain e where e: "e \<in> set es" "x = (?id e, False, with_kind e)" by auto
    then have "map_of F (?id e) = Some (False, with_kind e)" using l by simp
    then have "(?id e, False, with_kind e) \<in> set F" by (rule map_of_SomeD)
    then show "x \<in> set ?L" using e by auto
  qed
  then have "mset ?L = mset ?R" by (rule mset_eq_of_set_eq[OF dL dR])
  then have "image_mset (\<lambda>kv. snd (snd kv)) (mset ?L) = image_mset (\<lambda>kv. snd (snd kv)) (mset ?R)"
    by (rule arg_cong)
  then have "mset (map (\<lambda>kv. snd (snd kv)) ?L) = mset (map (\<lambda>kv. snd (snd kv)) ?R)"
    by (simp only: mset_map)
  moreover have "map (\<lambda>kv. snd (snd kv)) ?R = map with_kind es" by (simp add: o_def)
  ultimately show ?thesis by (simp only:)
qed

lemma manager_wf_view:
  assumes "manager_wf m"
  shows "distinct (map fst (persisted_view m))" "keyed (persisted_view m)"
  using assms
  by (auto simp: manager_wf_def persisted_view_def keyed_def case_prod_beta o_def export_entry_def)

lemma exported_after_load:
  assumes wfm: "manager_wf m"
    and doc: "s_instances doc = Some es" "wf_entries es"
    and nocoll: "\<forall>e \<in> set es. \<forall>inst.
        getInstance m (the_default [] (s_instanceId e)) = Some inst \<longrightarrow> \<not> isAddButton inst"
    and load: "loadState env (Some doc) m = Returned u m'"
  shows "s_version (fst (exportState env' m')) = Some 1 \<and>
         length (the_default [] (s_instances (fst (exportState env' m')))) = length es \<and>
         mset (the_default [] (s_instances (fst (exportState env' m')))) = mset (map with_kind es) \<and>
         mset (map (\<lambda>e. (s_instanceId e, s_widgetId e, s_config e, s_normX e, s_normY e))
                 (the_default [] (s_instances (fst (exportState env' m')))))
           = mset (map (\<lambda>e. (s_instanceId e, s_widgetId e, s_config e, s_normX e, s_normY e)) es)"
proof -
  let ?id = "\<lambda>e. the_default [] (s_instanceId e)"
  let ?D0 = "persisted_view m"
  let ?F = "fold view_load es ?D0"
  let ?out = "the_default [] (s_instances (fst (exportState env' m')))"
  note v0 = manager_wf_view[OF wfm]
  have c0: "\<forall>e \<in> set es. \<forall>b w. map_of ?D0 (?id e) = Some (b, w) \<longrightarrow> \<not> b"
    using nocoll by (auto simp: view_map_of)
  from view_load_all[OF v0 doc(2) c0]
  have dF: "distinct (map fst ?F)"
    and lF: "\<forall>e \<in> set es. map_of ?F (?id e) = Some (False, with_kind e)" by simp_all
  note s = wf_seen_ids[OF doc(2)]
  from view_loadState[OF load doc(1)]
  have "persisted_view m' = fold (view_remove (seen_ids es)) (map fst ?F) ?F" by simp
  then have vm': "persisted_view m' = filter (\<lambda>(k, b, w). b \<or> k \<in> ?id ` set es) ?F"
    using view_remove_all[OF dF, of "seen_ids es"] s(1) by simp
  have "mset ?out = mset (map (\<lambda>kv. snd (snd kv)) (filter (\<lambda>kv. \<not> fst (snd kv)) (persisted_view m')))"
    using exportState_entries[of env' m'] by (simp add: export_via_view)
  also have "\<dots> = mset (map with_kind es)"
    unfolding vm' by (rule loaded_view_entries[OF dF lF s(2)])
  finally have m: "mset ?out = mset (map with_kind es)" .
  from m have "size (mset ?out) = size (mset (map with_kind es))" by (rule arg_cong)
  then have len: "length ?out = length es" by (simp only: size_mset length_map)
  let ?p = "\<lambda>e. (s_instanceId e, s_widgetId e, s_config e, s_normX e, s_normY e)"
  from m have "image_mset ?p (mset ?out) = image_mset ?p (mset (map with_kind es))"
    by (rule arg_cong)
  then have "mset (map ((\<lambda>e. (s_instanceId e, s_widgetId e, s_config e, s_normX e, s_normY e))) ?out)
        = mset (map ((\<lambda>e. (s_instanceId e, s_widgetId e, s_config e, s_normX e, s_normY e))) (map with_kind es))"
    by (simp only: mset_map)
  then have proj: "mset (map ((\<lambda>e. (s_instanceId e, s_widgetId e, s_config e, s_normX e, s_normY e))) ?out)
        = mset (map (\<lambda>e. (s_instanceId e, s_widgetId e, s_config e, s_normX e, s_normY e)) es)"
    by (simp add: o_def with_kind_def)
  have ver: "s_version (fst (exportState env' m')) = Some 1" by (simp add: exportState_doc)
  from ver len m proj show ?thesis by blast
qed

text \<open>
  What the code keeps.  Take a well-formed document of \<open>N\<close> entries: every entry has a
  non-empty instance id and widget id, a monitor index, a normalised position, a size, a
  configuration that is not null and the preferences flag, and no two entries share an
  instance id.  Take a manager whose map is keyed by instance id and holds no add button
  under an id of the document.  When the hosts that loading destroys can be destroyed (those
  of the instances the document does not name, and the one of the preferences window) and
  the context can be made, \<open>loadState\<close> returns.  And whenever \<open>loadState\<close> returns,
  the document that \<open>exportState\<close> builds right afterwards is of version 1 and has \<open>N\<close>
  entries: the entries of the loaded document (each with the kind the loader assumes when it
  has none), possibly in another order.
\<close>

lemma roundtrip_without_exception:
  assumes wfm: "manager_wf m"
    and doc: "s_instances doc = Some es" "wf_entries es"
    and nocoll: "\<forall>e \<in> set es. \<forall>inst.
        getInstance m (the_default [] (s_instanceId e)) = Some inst \<longrightarrow> \<not> isAddButton inst"
  shows "(removable (seen_ids es) m \<and> context_ready env m \<longrightarrow>
            returned (loadState env (Some doc) m)) \<and>
         (\<forall>m'. loadState env (Some doc) m = Returned () m' \<longrightarrow>
            s_version (fst (exportState env' m')) = Some 1 \<and>
            length (the_default [] (s_instances (fst (exportState env' m')))) = length es \<and>
            mset (the_default [] (s_instances (fst (exportState env' m')))) = mset (map with_kind es) \<and>
            mset (map (\<lambda>e. (s_instanceId e, s_widgetId e, s_config e, s_normX e, s_normY e))
                    (the_default [] (s_instances (fst (exportState env' m')))))
              = mset (map (\<lambda>e. (s_instanceId e, s_widgetId e, s_config e, s_normX e, s_normY e)) es))"
proof (intro conjI impI allI)
  assume "removable (seen_ids es) m \<and> context_ready env m"
  then have "\<exists>m'. loadState env (Some doc) m = Returned () m'"
    using loadState_returns[OF doc(1)] by blast
  then show "returned (loadState env (Some doc) m)" by auto
next
  fix m' assume load: "loadState env (Some doc) m = Returned () m'"
  note r = exported_after_load[OF wfm doc nocoll load, of env']
  from r show "s_version (fst (exportState env' m')) = Some 1" by (rule conjunct1)
  from r show "length (the_default [] (s_instances (fst (exportState env' m')))) = length es"
    by (rule conjunct2[THEN conjunct1])
  from r show "mset (the_default [] (s_instances (fst (exportState env' m')))) = mset (map with_kind es)"
    by (rule conjunct2[THEN conjunct2, THEN conjunct1])
  from r show "mset (map (\<lambda>e. (s_instanceId e, s_widgetId e, s_config e, s_normX e, s_normY e))
                    (the_default [] (s_instances (fst (exportState env' m')))))
              = mset (map (\<lambda>e. (s_instanceId e, s_widgetId e, s_config e, s_normX e, s_normY e)) es)"
    by (rule conjunct2[THEN conjunct2, THEN conjunct2])
qed

text \<open>
  C4 fails in the code.  The manager holds the instance \<^verbatim>\<open>ghi\<close>, whose host still waits
  for its web view, and the well-formed document of two entries does not name it.  The
  second loop of \<open>loadState\<close> removes \<^verbatim>\<open>ghi\<close>, \<open>destroy\<close> throws on its host, and
  \<open>loadState\<close> is left by that exception with \<^verbatim>\<open>ghi\<close> still in the map: the document
  exported afterwards has three entries.
\<close>

theorem loadState_unnamed_pending_host_throws:
  "wf_entries (the_default [] (s_instances example_state)) \<and>
   length (the_default [] (s_instances example_state)) = 2 \<and>
   \<not> returned (loadState example_env (Some example_state) example_pending_manager) \<and>
   map s_instanceId (the_default [] (s_instances (fst (exportState example_env
           (state_of (loadState example_env (Some example_state) example_pending_manager))))))
     = [Some ''abc'', Some ''ghi'', Some ''def'']"
  by code_simp

end
